theory Spec2Isabelle
  imports Complex_Main
begin

section \<open>Tool call data (types/tool\_types.py)\<close>

text \<open>
  Python values that occur as tool arguments. A \<open>Dict[str, Any]\<close> is a map from
  strings to such values.
\<close>

datatype pyval = PNone | PBool bool | PInt int | PStr string

type_synonym pydict = "string \<rightharpoonup> pyval"

text \<open>
  An exception is represented by its message, which is what \<open>str(e)\<close> returns. The type
  stands for the exceptions derived from \<open>Exception\<close>, the ones the handlers
  \<open>except Exception\<close> of the scheduler catch. An exception outside that class
  (\<open>asyncio.CancelledError\<close>, \<open>KeyboardInterrupt\<close>) passes those handlers: it ends the
  running method at the awaited call and leaves the call in the status it had, for
  instance executing. Runs in which a tool raises such an exception are not covered.
\<close>

datatype exn = Exception (message: string)

record tool_result =
  summary :: "string option"
  llm_content :: string
  return_display :: "string option"
  error :: "string option"

record request_info =
  call_id :: string
  name :: string
  args :: pydict
  is_client_initiated :: bool
  prompt_id :: string

text \<open>
  The values the scheduler stores in \<open>response_parts\<close>: the dictionary
  \<open>{'functionResponse': {'id': i, 'name': n, 'response': r}}\<close> or the dictionary
  \<open>{'text': t}\<close>.
\<close>

datatype response_parts =
    FunctionResponse (fr_id: string) (fr_name: string) (fr_response: "(string \<times> string) list")
  | TextPart string

record response_info =
  resp_call_id :: string
  response_parts :: response_parts
  result_display :: "string option"
  resp_error :: "exn option"

datatype confirmation_details = ConfirmationDetails (cd_type: string) (cd_title: string)

text \<open>
  The untyped third parameter \<open>details\<close> of \<open>_set_status\<close>: absent, confirmation
  details, or a response.
\<close>

datatype details = NoDetails | ConfirmationD confirmation_details | ResponseD response_info

text \<open>
  A tool is an external collaborator. Its two awaited methods may do anything to the
  outside world (which includes the abort signal and the clock), so each takes the
  world \<open>'w\<close> and returns the new one together with its result or the exception it
  raised. Its \<open>parameter_schema\<close> is a reference to a dictionary object, given as the
  address of that object in the store of section \<open>Parameter schemas\<close>.
\<close>

record 'w tool =
  tool_name :: string
  description :: string
  parameter_schema :: nat
  should_confirm_execute :: "pydict \<Rightarrow> 'w \<Rightarrow> (exn + confirmation_details option) \<times> 'w"
  execute :: "pydict \<Rightarrow> 'w \<Rightarrow> (exn + tool_result) \<times> 'w"

datatype call_status =
  Validating | Scheduled | Executing | AwaitingApproval | Success | Error | Cancelled

text \<open>The seven dataclasses of the union \<open>ToolCall\<close>, with their fields in source order.\<close>

datatype 'w tool_call =
    ValidatingToolCall request_info "'w tool option" "real option"
  | ScheduledToolCall request_info "'w tool option" "real option"
  | ExecutingToolCall request_info "'w tool option" "string option" "real option"
  | SuccessfulToolCall request_info "'w tool option" details "real option"
  | ErroredToolCall request_info details "real option"
  | CancelledToolCall request_info "'w tool option" details "real option"
  | WaitingToolCall request_info "'w tool option" details "real option"

fun request :: "'w tool_call \<Rightarrow> request_info" where
  "request (ValidatingToolCall r t st) = r"
| "request (ScheduledToolCall r t st) = r"
| "request (ExecutingToolCall r t lo st) = r"
| "request (SuccessfulToolCall r t d ms) = r"
| "request (ErroredToolCall r d ms) = r"
| "request (CancelledToolCall r t d ms) = r"
| "request (WaitingToolCall r t d st) = r"

fun status :: "'w tool_call \<Rightarrow> call_status" where
  "status (ValidatingToolCall r t st) = Validating"
| "status (ScheduledToolCall r t st) = Scheduled"
| "status (ExecutingToolCall r t lo st) = Executing"
| "status (SuccessfulToolCall r t d ms) = Success"
| "status (ErroredToolCall r d ms) = Error"
| "status (CancelledToolCall r t d ms) = Cancelled"
| "status (WaitingToolCall r t d st) = AwaitingApproval"

text \<open>\<open>getattr(tool_call, 'start_time', None)\<close> and \<open>getattr(tool_call, 'tool', None)\<close>.\<close>

fun existing_start_time :: "'w tool_call \<Rightarrow> real option" where
  "existing_start_time (ValidatingToolCall r t st) = st"
| "existing_start_time (ScheduledToolCall r t st) = st"
| "existing_start_time (ExecutingToolCall r t lo st) = st"
| "existing_start_time (WaitingToolCall r t d st) = st"
| "existing_start_time (SuccessfulToolCall r t d ms) = None"
| "existing_start_time (ErroredToolCall r d ms) = None"
| "existing_start_time (CancelledToolCall r t d ms) = None"

fun existing_tool :: "'w tool_call \<Rightarrow> 'w tool option" where
  "existing_tool (ValidatingToolCall r t st) = t"
| "existing_tool (ScheduledToolCall r t st) = t"
| "existing_tool (ExecutingToolCall r t lo st) = t"
| "existing_tool (WaitingToolCall r t d st) = t"
| "existing_tool (SuccessfulToolCall r t d ms) = t"
| "existing_tool (ErroredToolCall r d ms) = None"
| "existing_tool (CancelledToolCall r t d ms) = t"

text \<open>The response a terminal call carries (\<open>NoDetails\<close> for the other states).\<close>

fun response :: "'w tool_call \<Rightarrow> details" where
  "response (SuccessfulToolCall r t d ms) = d"
| "response (ErroredToolCall r d ms) = d"
| "response (CancelledToolCall r t d ms) = d"
| "response (ValidatingToolCall r t st) = NoDetails"
| "response (ScheduledToolCall r t st) = NoDetails"
| "response (ExecutingToolCall r t lo st) = NoDetails"
| "response (WaitingToolCall r t d st) = NoDetails"

fun duration_ms :: "'w tool_call \<Rightarrow> real option" where
  "duration_ms (SuccessfulToolCall r t d ms) = ms"
| "duration_ms (ErroredToolCall r d ms) = ms"
| "duration_ms (CancelledToolCall r t d ms) = ms"
| "duration_ms (ValidatingToolCall r t st) = None"
| "duration_ms (ScheduledToolCall r t st) = None"
| "duration_ms (ExecutingToolCall r t lo st) = None"
| "duration_ms (WaitingToolCall r t d st) = None"

text \<open>\<open>status in ['success', 'error', 'cancelled']\<close>.\<close>

fun is_terminal :: "call_status \<Rightarrow> bool" where
  "is_terminal Success = True"
| "is_terminal Error = True"
| "is_terminal Cancelled = True"
| "is_terminal Validating = False"
| "is_terminal Scheduled = False"
| "is_terminal Executing = False"
| "is_terminal AwaitingApproval = False"


section \<open>The scheduler (core/scheduler.py)\<close>

text \<open>
  What the two UI callbacks received, in order. Each carries a snapshot of the list it
  was passed.
\<close>

datatype 'w event =
    ToolCallsUpdate "'w tool_call list"
  | AllToolsComplete "'w tool_call list"

text \<open>
  The scheduler object: its list of calls, whether each callback was supplied, and the
  outside world. Two history fields record what happened: \<open>events\<close> the callback
  invocations, \<open>transitions\<close> every replacement \<open>self.tool_calls[i] = new_call\<close> as
  (call id, status before, status after).
  Each method runs from its call to its return without another method of the scheduler
  running in between: a call of \<open>handle_confirmation_response\<close> made while \<open>schedule\<close>
  awaits a tool is not covered.
  A callback is taken to return. A callback that raises is not covered: where
  \<open>_set_status\<close> is called inside a \<open>try\<close> (the validation loop and the execution loop),
  the exception of a raising listener would be caught by \<open>except Exception\<close> after the
  replacement was made, and the handler would set the same call to error.
\<close>

record 'w scheduler =
  tool_calls :: "'w tool_call list"
  on_all_tools_complete :: bool
  on_tool_calls_update :: bool
  events :: "'w event list"
  transitions :: "(string \<times> call_status \<times> call_status) list"
  world :: 'w

text \<open>
  What the scheduler reads from its surroundings: the registry lookup, the response
  converter of \<open>utils/function_response\<close> (it may raise), the clock and the flag of
  the abort signal that the caller passes in.
\<close>

record 'w env =
  get_tool :: "string \<Rightarrow> 'w tool option"
  convert_to_function_response :: "string \<Rightarrow> string \<Rightarrow> tool_result \<Rightarrow> exn + response_parts"
  time_time :: "'w \<Rightarrow> real \<times> 'w"
  aborted :: "'w \<Rightarrow> bool"

definition is_running :: "'w scheduler \<Rightarrow> bool" where
  "is_running s = list_ex (\<lambda>c. status c \<in> set [Executing, AwaitingApproval]) (tool_calls s)"

definition notify_tool_calls_update :: "'w scheduler \<Rightarrow> 'w scheduler" where
  "notify_tool_calls_update s =
     (if on_tool_calls_update s
      then s\<lparr>events := events s @ [ToolCallsUpdate (tool_calls s)]\<rparr>
      else s)"

text \<open>The guard of the clearing branch of \<open>_check_and_notify_completion\<close>.\<close>

definition sweep_condition :: "'w tool_call list \<Rightarrow> bool" where
  "sweep_condition cs =
     (let all_calls_terminal = list_all (\<lambda>c. status c \<in> set [Success, Error, Cancelled]) cs;
          has_awaiting_approval = list_ex (\<lambda>c. status c = AwaitingApproval) cs;
          has_executing = list_ex (\<lambda>c. status c = Executing) cs
      in length cs > 0 \<and> all_calls_terminal \<and> \<not> has_awaiting_approval \<and> \<not> has_executing)"

definition check_and_notify_completion :: "'w scheduler \<Rightarrow> 'w scheduler" where
  "check_and_notify_completion s =
     (if length (tool_calls s) = 0 then s
      else if sweep_condition (tool_calls s) then
        (let completed_calls = tool_calls s;
             s1 = s\<lparr>tool_calls := []\<rparr>;
             s2 = (if on_all_tools_complete s1
                   then s1\<lparr>events := events s1 @ [AllToolsComplete completed_calls]\<rparr>
                   else s1)
         in notify_tool_calls_update s2)
      else s)"

text \<open>
  \<open>time.time() - existing_start_time if existing_start_time else 0\<close>: the clock is read
  only when the start time is present and not zero.
\<close>

definition duration :: "'w env \<Rightarrow> real option \<Rightarrow> 'w \<Rightarrow> real \<times> 'w" where
  "duration env st w =
     (case st of
        None \<Rightarrow> (0, w)
      | Some t \<Rightarrow> if t = 0 then (0, w)
                  else (case time_time env w of (now, w') \<Rightarrow> (now - t, w')))"

text \<open>
  The object \<open>_set_status\<close> builds for the new status; \<open>None\<close> is the final
  \<open>else: continue\<close>, taken for any status it does not construct.
\<close>

fun new_call :: "'w env \<Rightarrow> call_status \<Rightarrow> details \<Rightarrow> 'w tool_call \<Rightarrow> 'w \<Rightarrow> ('w tool_call \<times> 'w) option" where
  "new_call env Scheduled d tc w =
     Some (ScheduledToolCall (request tc) (existing_tool tc) (existing_start_time tc), w)"
| "new_call env Executing d tc w =
     Some (ExecutingToolCall (request tc) (existing_tool tc) None (existing_start_time tc), w)"
| "new_call env AwaitingApproval d tc w =
     Some (WaitingToolCall (request tc) (existing_tool tc) d (existing_start_time tc), w)"
| "new_call env Success d tc w =
     (case duration env (existing_start_time tc) w of
        (dur, w') \<Rightarrow> Some (SuccessfulToolCall (request tc) (existing_tool tc) d (Some (dur * 1000)), w'))"
| "new_call env Error d tc w =
     (case duration env (existing_start_time tc) w of
        (dur, w') \<Rightarrow> Some (ErroredToolCall (request tc) d (Some (dur * 1000)), w'))"
| "new_call env Cancelled d tc w =
     (case duration env (existing_start_time tc) w of
        (dur, w') \<Rightarrow> Some (CancelledToolCall (request tc) (existing_tool tc) d (Some (dur * 1000)), w'))"
| "new_call env Validating d tc w = None"

text \<open>
  The \<open>for\<close> loop of \<open>_set_status\<close>. It skips calls with another id, skips terminal
  calls, and replaces the first remaining one, then breaks. The result is the new list,
  the new world and the transition made (none or one).
\<close>

fun set_status_loop ::
  "'w env \<Rightarrow> string \<Rightarrow> call_status \<Rightarrow> details \<Rightarrow> 'w tool_call list \<Rightarrow> 'w
     \<Rightarrow> 'w tool_call list \<times> 'w \<times> (string \<times> call_status \<times> call_status) list" where
  "set_status_loop env cid st d [] w = ([], w, [])"
| "set_status_loop env cid st d (tc # tcs) w =
     (if call_id (request tc) \<noteq> cid then
        (case set_status_loop env cid st d tcs w of (tcs', w', tr) \<Rightarrow> (tc # tcs', w', tr))
      else if status tc \<in> set [Success, Error, Cancelled] then
        (case set_status_loop env cid st d tcs w of (tcs', w', tr) \<Rightarrow> (tc # tcs', w', tr))
      else
        (case new_call env st d tc w of
           None \<Rightarrow>
             (case set_status_loop env cid st d tcs w of (tcs', w', tr) \<Rightarrow> (tc # tcs', w', tr))
         | Some (tc', w') \<Rightarrow> (tc' # tcs, w', [(cid, status tc, st)])))"

definition set_status :: "'w env \<Rightarrow> string \<Rightarrow> call_status \<Rightarrow> details \<Rightarrow> 'w scheduler \<Rightarrow> 'w scheduler" where
  "set_status env cid st d s =
     (case set_status_loop env cid st d (tool_calls s) (world s) of
        (tcs, w, tr) \<Rightarrow>
          check_and_notify_completion
            (notify_tool_calls_update
              (s\<lparr>tool_calls := tcs, world := w, transitions := transitions s @ tr\<rparr>)))"

text \<open>The message texts the scheduler builds.\<close>

definition not_found_message :: "string \<Rightarrow> string" where
  "not_found_message n = ''Tool '' @ [CHR 0x27] @ n @ [CHR 0x27] @ '' not found in registry''"

definition not_found_response :: "request_info \<Rightarrow> response_info" where
  "not_found_response r =
     \<lparr>resp_call_id = call_id r,
      response_parts = FunctionResponse (call_id r) (name r) [(''error'', not_found_message (name r))],
      result_display = None,
      resp_error = Some (Exception (not_found_message (name r)))\<rparr>"

definition validation_error_response :: "request_info \<Rightarrow> exn \<Rightarrow> response_info" where
  "validation_error_response r e =
     \<lparr>resp_call_id = call_id r,
      response_parts =
        FunctionResponse (call_id r) (name r) [(''error'', ''Validation failed: '' @ message e)],
      result_display = None,
      resp_error = Some e\<rparr>"

definition execution_error_response :: "request_info \<Rightarrow> exn \<Rightarrow> response_info" where
  "execution_error_response r e =
     \<lparr>resp_call_id = call_id r,
      response_parts = FunctionResponse (call_id r) (name r) [(''error'', message e)],
      result_display = None,
      resp_error = Some e\<rparr>"

text \<open>The display text of a cancellation, as the bytes of its UTF-8 encoding.\<close>

definition cancel_display :: string where
  "cancel_display = map char_of
     [0xE6 :: nat, 0x93, 0x8D, 0xE4, 0xBD, 0x9C, 0xE5, 0xB7, 0xB2, 0xE8, 0xA2, 0xAB,
      0xE7, 0x94, 0xA8, 0xE6, 0x88, 0xB7, 0xE5, 0x8F, 0x96, 0xE6, 0xB6, 0x88]"

definition cancel_response :: "string \<Rightarrow> response_info" where
  "cancel_response cid =
     \<lparr>resp_call_id = cid,
      response_parts = TextPart ''User cancelled the operation'',
      result_display = Some cancel_display,
      resp_error = None\<rparr>"

text \<open>The \<open>AttributeError\<close> raised by a method call on \<open>None\<close>.\<close>

definition attribute_error :: "string \<Rightarrow> exn" where
  "attribute_error a =
     Exception ([CHR 0x27] @ ''NoneType'' @ [CHR 0x27] @ '' object has no attribute ''
                @ [CHR 0x27] @ a @ [CHR 0x27])"

text \<open>
  Step 1 of \<open>schedule\<close>: one call per request, an error call when the registry has no
  such tool, otherwise a validating call stamped with the current time.
\<close>

fun create_calls :: "'w env \<Rightarrow> request_info list \<Rightarrow> 'w \<Rightarrow> 'w tool_call list \<times> 'w" where
  "create_calls env [] w = ([], w)"
| "create_calls env (r # rs) w =
     (case get_tool env (name r) of
        None \<Rightarrow>
          (case create_calls env rs w of
             (cs, w') \<Rightarrow> (ErroredToolCall r (ResponseD (not_found_response r)) (Some 0) # cs, w'))
      | Some t \<Rightarrow>
          (case time_time env w of
             (now, w1) \<Rightarrow>
               (case create_calls env rs w1 of
                  (cs, w2) \<Rightarrow> (ValidatingToolCall r (Some t) (Some now) # cs, w2))))"

text \<open>
  Step 2 of \<open>schedule\<close>: the loop over \<open>new_tool_calls\<close>. The loop reads the objects it
  created in step 1; \<open>_set_status\<close> replaces entries of \<open>self.tool_calls\<close> and leaves
  those objects as they were. The \<open>try\<close> of the loop encloses the awaited
  \<open>should_confirm_execute\<close> and the two calls of \<open>_set_status\<close>; with callbacks that
  return, \<open>_set_status\<close> raises nothing, so the handler is entered only from
  \<open>should_confirm_execute\<close> (or from the missing tool).
\<close>

fun validate_calls :: "'w env \<Rightarrow> 'w tool_call list \<Rightarrow> 'w scheduler \<Rightarrow> 'w scheduler" where
  "validate_calls env [] s = s"
| "validate_calls env (tc # tcs) s =
     (if status tc \<noteq> Validating then validate_calls env tcs s
      else
        (let r = request tc in
         case existing_tool tc of
           None \<Rightarrow>
             validate_calls env tcs
               (set_status env (call_id r) Error
                  (ResponseD (validation_error_response r (attribute_error ''should_confirm_execute''))) s)
         | Some t \<Rightarrow>
             (case should_confirm_execute t (args r) (world s) of
                (Inl e, w) \<Rightarrow>
                  validate_calls env tcs
                    (set_status env (call_id r) Error
                       (ResponseD (validation_error_response r e)) (s\<lparr>world := w\<rparr>))
              | (Inr (Some cd), w) \<Rightarrow>
                  validate_calls env tcs
                    (set_status env (call_id r) AwaitingApproval (ConfirmationD cd) (s\<lparr>world := w\<rparr>))
              | (Inr None, w) \<Rightarrow>
                  validate_calls env tcs
                    (set_status env (call_id r) Scheduled NoDetails (s\<lparr>world := w\<rparr>)))))"

text \<open>\<open>if result.error\<close>: a string is true when it is present and not empty.\<close>

definition truthy :: "string option \<Rightarrow> bool" where
  "truthy x = (case x of None \<Rightarrow> False | Some t \<Rightarrow> t \<noteq> [])"

text \<open>
  The body of the loop of \<open>_attempt_execution_of_scheduled_calls\<close> for one scheduled
  call: set it executing, await \<open>execute\<close>, convert the result, and set the call to
  success or error; any exception on the way sets it to error. The next statement runs
  only when the awaited \<open>execute\<close> has returned. The \<open>try\<close> encloses all of this; with
  callbacks that return, the handler \<open>except Exception\<close> is entered from \<open>execute\<close>,
  from the conversion, or from the missing tool. An exception of \<open>execute\<close> outside
  \<open>Exception\<close> would pass the handler and leave the call executing: see the remark at
  the type of exceptions.
\<close>

definition execute_scheduled_call :: "'w env \<Rightarrow> 'w tool_call \<Rightarrow> 'w scheduler \<Rightarrow> 'w scheduler" where
  "execute_scheduled_call env tc s =
     (let r = request tc;
          s1 = set_status env (call_id r) Executing NoDetails s
      in case existing_tool tc of
           None \<Rightarrow>
             set_status env (call_id r) Error
               (ResponseD (execution_error_response r (attribute_error ''execute''))) s1
         | Some t \<Rightarrow>
             (case execute t (args r) (world s1) of
                (Inl e, w) \<Rightarrow>
                  set_status env (call_id r) Error
                    (ResponseD (execution_error_response r e)) (s1\<lparr>world := w\<rparr>)
              | (Inr result, w) \<Rightarrow>
                  (case convert_to_function_response env (name r) (call_id r) result of
                     Inl e \<Rightarrow>
                       set_status env (call_id r) Error
                         (ResponseD (execution_error_response r e)) (s1\<lparr>world := w\<rparr>)
                   | Inr function_response \<Rightarrow>
                       if truthy (error result) then
                         set_status env (call_id r) Error
                           (ResponseD
                              \<lparr>resp_call_id = call_id r,
                               response_parts = function_response,
                               result_display = return_display result,
                               resp_error = Some (Exception (the (error result)))\<rparr>)
                           (s1\<lparr>world := w\<rparr>)
                       else
                         set_status env (call_id r) Success
                           (ResponseD
                              \<lparr>resp_call_id = call_id r,
                               response_parts = function_response,
                               result_display = return_display result,
                               resp_error = None\<rparr>)
                           (s1\<lparr>world := w\<rparr>))))"

text \<open>
  \<open>for tool_call in self.tool_calls\<close>: the iterator walks the list object by index and
  reads each entry when it reaches it, so it sees the replacements \<open>_set_status\<close> has made.
  When the completion sweep rebinds \<open>self.tool_calls\<close> to a new empty list, the iterator
  keeps walking the old list, whose entries are then all terminal and are skipped; in
  the model the index is then beyond the (empty) list and the step is skipped as well.
\<close>

definition execution_step :: "'w env \<Rightarrow> 'w scheduler \<Rightarrow> nat \<Rightarrow> 'w scheduler" where
  "execution_step env s j =
     (if j < length (tool_calls s) then
        (let tool_call = tool_calls s ! j
         in if status tool_call = Scheduled then execute_scheduled_call env tool_call s else s)
      else s)"

definition attempt_execution_of_scheduled_calls :: "'w env \<Rightarrow> 'w scheduler \<Rightarrow> 'w scheduler" where
  "attempt_execution_of_scheduled_calls env s =
     foldl (execution_step env) s [0..<length (tool_calls s)]"

definition schedule ::
  "'w env \<Rightarrow> request_info list \<Rightarrow> 'w scheduler \<Rightarrow> (exn + unit) \<times> 'w scheduler" where
  "schedule env requests s =
     (if is_running s then
        (Inl (Exception ''Cannot schedule new tool calls while others are running''), s)
      else
        (case create_calls env requests (world s) of
           (new_tool_calls, w) \<Rightarrow>
             (let s1 = s\<lparr>tool_calls := tool_calls s @ new_tool_calls, world := w\<rparr>;
                  s2 = notify_tool_calls_update s1;
                  s3 = validate_calls env new_tool_calls s2
              in (Inr (), attempt_execution_of_scheduled_calls env s3))))"

text \<open>The first call with the given id that awaits approval, as its index.\<close>

fun find_awaiting :: "string \<Rightarrow> 'w tool_call list \<Rightarrow> nat option" where
  "find_awaiting cid [] = None"
| "find_awaiting cid (c # cs) =
     (if call_id (request c) = cid \<and> status c = AwaitingApproval then Some 0
      else map_option Suc (find_awaiting cid cs))"

text \<open>\<open>tool_call.request.args.update(payload)\<close>.\<close>

fun update_args :: "pydict \<Rightarrow> 'w tool_call \<Rightarrow> 'w tool_call" where
  "update_args p (ValidatingToolCall r t st) = ValidatingToolCall (r\<lparr>args := args r ++ p\<rparr>) t st"
| "update_args p (ScheduledToolCall r t st) = ScheduledToolCall (r\<lparr>args := args r ++ p\<rparr>) t st"
| "update_args p (ExecutingToolCall r t lo st) = ExecutingToolCall (r\<lparr>args := args r ++ p\<rparr>) t lo st"
| "update_args p (SuccessfulToolCall r t d ms) = SuccessfulToolCall (r\<lparr>args := args r ++ p\<rparr>) t d ms"
| "update_args p (ErroredToolCall r d ms) = ErroredToolCall (r\<lparr>args := args r ++ p\<rparr>) d ms"
| "update_args p (CancelledToolCall r t d ms) = CancelledToolCall (r\<lparr>args := args r ++ p\<rparr>) t d ms"
| "update_args p (WaitingToolCall r t d st) = WaitingToolCall (r\<lparr>args := args r ++ p\<rparr>) t d st"

text \<open>
  \<open>handle_confirmation_response\<close>. The payload is \<open>None\<close> or a dictionary; \<open>and payload\<close>
  is true for a dictionary that is not empty. Each request is an object of its own, so
  updating the arguments of one call changes no other call.
\<close>

definition handle_confirmation_response ::
  "'w env \<Rightarrow> string \<Rightarrow> string \<Rightarrow> pydict option \<Rightarrow> 'w scheduler \<Rightarrow> 'w scheduler" where
  "handle_confirmation_response env cid outcome payload s =
     (case find_awaiting cid (tool_calls s) of
        None \<Rightarrow> s
      | Some i \<Rightarrow>
          (let s1 =
             (if outcome = ''cancel'' \<or> aborted env (world s) then
                set_status env cid Cancelled (ResponseD (cancel_response cid)) s
              else if outcome = ''modify_with_editor'' \<and> payload \<noteq> None \<and> payload \<noteq> Some Map.empty then
                set_status env cid Scheduled NoDetails
                  (s\<lparr>tool_calls := (tool_calls s)[i := update_args (the payload) (tool_calls s ! i)]\<rparr>)
              else if outcome \<in> set [''proceed_once'', ''proceed_always'',
                                      ''proceed_always_server'', ''proceed_always_tool''] then
                set_status env cid Scheduled NoDetails s
              else s)
           in attempt_execution_of_scheduled_calls env s1))"

text \<open>A scheduler as \<open>__init__\<close> leaves it.\<close>

definition init_scheduler :: "bool \<Rightarrow> bool \<Rightarrow> 'w \<Rightarrow> 'w scheduler" where
  "init_scheduler complete_cb update_cb w =
     \<lparr>tool_calls = [], on_all_tools_complete = complete_cb, on_tool_calls_update = update_cb,
      events = [], transitions = [], world = w\<rparr>"


section \<open>The tool registry (tools/registry.py)\<close>

datatype tool_capability =
    QUERY | MODIFY | SCHEMA_CHANGE | EXPLORE | ANALYZE | PROFILE | BACKUP | RESTORE | OPTIMIZE
  | MEMORY | EXPORT | IMPORT | READ | WRITE | SEARCH | AUDIT | PERMISSION | EXTERNAL | MCP
  | CODE_EXECUTION | WEB_ACCESS | FILE_OPERATION

text \<open>
  The elements of a capability set. \<open>register_tool\<close> is annotated with
  \<open>Set[ToolCapability]\<close>, but the MCP registry passes the plain strings that
  \<open>get_capability_hints\<close> returns, next to the member \<open>ToolCapability.EXTERNAL\<close>. A string
  is equal to no member of the enumeration.
\<close>

datatype capability = Member tool_capability | Hint string

text \<open>
  The assignment \<open>d[k] = v\<close> on a dictionary kept in insertion order: a new key goes to
  the end, a key that is present keeps its place.
\<close>

definition dict_set :: "'k \<Rightarrow> 'v \<Rightarrow> ('k \<times> 'v) list \<Rightarrow> ('k \<times> 'v) list" where
  "dict_set k v d =
     (if k \<in> fst ` set d then map (\<lambda>e. if fst e = k then (k, v) else e) d else d @ [(k, v)])"

record 'w tool_info =
  info_tool :: "'w tool"
  capabilities :: "capability set"
  tags :: "string set"
  priority :: int
  metadata :: pydict

text \<open>
  The three indices of \<open>ToolRegistry\<close>. The main index \<open>tools\<close> keeps its insertion order,
  which \<open>get_function_declarations\<close> reads.
\<close>

record 'w registry =
  tools :: "(string \<times> 'w tool_info) list"
  capability_index :: "capability \<rightharpoonup> string set"
  tag_index :: "string \<rightharpoonup> string set"

text \<open>
  \<open>index[key].add(name)\<close> after creating the empty set when the key is new, for every
  key of the given set. The order in which Python walks the set does not matter.
\<close>

definition add_to_index :: "'k set \<Rightarrow> string \<Rightarrow> ('k \<rightharpoonup> string set) \<Rightarrow> ('k \<rightharpoonup> string set)" where
  "add_to_index keys n index =
     (\<lambda>k. if k \<in> keys
          then Some (insert n (case index k of None \<Rightarrow> {} | Some names \<Rightarrow> names))
          else index k)"

text \<open>\<open>tags or set()\<close> and \<open>metadata or {}\<close> replace \<open>None\<close> by the empty collection.\<close>

definition register_tool ::
  "'w tool \<Rightarrow> capability set \<Rightarrow> string set option \<Rightarrow> int \<Rightarrow> pydict option
     \<Rightarrow> 'w registry \<Rightarrow> 'w registry" where
  "register_tool t caps tgs prio meta reg =
     (let tool_info =
            \<lparr>info_tool = t, capabilities = caps,
             tags = (case tgs of None \<Rightarrow> {} | Some ts \<Rightarrow> ts),
             priority = prio,
             metadata = (case meta of None \<Rightarrow> Map.empty | Some m \<Rightarrow> m)\<rparr>
      in reg\<lparr>tools := dict_set (tool_name t) tool_info (tools reg),
              capability_index := add_to_index caps (tool_name t) (capability_index reg),
              tag_index := add_to_index (tags tool_info) (tool_name t) (tag_index reg)\<rparr>)"

text \<open>\<open>ToolRegistry.get_tool\<close>.\<close>

definition registry_get_tool :: "'w registry \<Rightarrow> string \<Rightarrow> 'w tool option" where
  "registry_get_tool reg n = map_option info_tool (map_of (tools reg) n)"

text \<open>
  The attribute \<open>unregister_tool\<close> of a \<open>ToolRegistry\<close>. The class defines the methods
  \<open>_create_tool\<close>, \<open>_register_core_tools\<close>, \<open>_register_project_tools\<close>, \<open>register_tool\<close>,
  \<open>get_tool\<close>, \<open>get_all_tools\<close>, \<open>get_gemini_function_declarations\<close>,
  \<open>get_tools_by_capability\<close>, \<open>get_tools_by_capabilities\<close>, \<open>get_tools_by_tag\<close>,
  \<open>search_tools\<close>, \<open>get_capability_summary\<close>, \<open>get_tool_info\<close>,
  \<open>get_function_declarations\<close>, \<open>initialize_mcp\<close> and \<open>get_mcp_registry\<close>, and its
  objects have the attributes \<open>config\<close>, \<open>tools\<close>, \<open>_capability_index\<close>, \<open>_tag_index\<close>,
  \<open>memory_manager\<close>, \<open>_i18n\<close> and \<open>_mcp_registry\<close>: there is no \<open>unregister_tool\<close>.
\<close>

definition tool_registry_unregister_tool :: "(string \<Rightarrow> 'w registry \<Rightarrow> 'w registry) option" where
  "tool_registry_unregister_tool = None"


section \<open>Removing MCP tools (tools/mcp/mcp\_registry.py)\<close>

text \<open>The dictionary \<open>registered_tools\<close> of the MCP registry, in insertion order.\<close>

record 'w mcp_registry =
  registered_tools :: "(string \<times> 'w tool) list"

text \<open>
  One round of the loop of \<open>_unregister_all_tools\<close>:
  \<open>if hasattr(tool_registry, 'unregister_tool'): tool_registry.unregister_tool(tool_name)\<close>,
  then \<open>del self.registered_tools[tool_name]\<close>.
\<close>

definition unregister_one :: "string \<Rightarrow> 'w mcp_registry \<times> 'w registry \<Rightarrow> 'w mcp_registry \<times> 'w registry" where
  "unregister_one tname st =
     (case st of (m, reg) \<Rightarrow>
        (m\<lparr>registered_tools := filter (\<lambda>e. fst e \<noteq> tname) (registered_tools m)\<rparr>,
         (case tool_registry_unregister_tool of
            None \<Rightarrow> reg
          | Some unregister_tool \<Rightarrow> unregister_tool tname reg)))"

definition unregister_all_tools :: "'w mcp_registry \<Rightarrow> 'w registry \<Rightarrow> 'w mcp_registry \<times> 'w registry" where
  "unregister_all_tools m reg =
     fold unregister_one (map fst (registered_tools m)) (m, reg)"

text \<open>
  What \<open>_register_discovered_tools\<close> does for one adapter: register it with the strings
  that \<open>get_capability_hints\<close> returned and the member \<open>EXTERNAL\<close>, the tags \<open>mcp\<close>,
  \<open>external\<close> and the server name, the default MCP priority 60, and record it in
  \<open>registered_tools\<close>. The hints always contain the strings \<open>EXTERNAL\<close> and \<open>MCP\<close>; which
  others they contain depends on the name and the description of the tool.
\<close>

definition register_mcp_tool ::
  "'w tool \<Rightarrow> string set \<Rightarrow> string \<Rightarrow> string
     \<Rightarrow> 'w mcp_registry \<times> 'w registry \<Rightarrow> 'w mcp_registry \<times> 'w registry" where
  "register_mcp_tool adapter hints server_name original_name st =
     (case st of (m, reg) \<Rightarrow>
        (m\<lparr>registered_tools := dict_set (tool_name adapter) adapter (registered_tools m)\<rparr>,
         register_tool adapter (insert (Member EXTERNAL) (Hint ` hints))
           (Some {''mcp'', ''external'', server_name}) 60
           (Some [''mcp_server'' \<mapsto> PStr server_name, ''mcp_tool'' \<mapsto> PStr original_name])
           reg))"


section \<open>Parameter schemas (utils/parameter\_sanitizer.py)\<close>

text \<open>
  A parameter schema is a Python dictionary whose values may again be dictionaries and
  lists. Python holds such values by reference, and the sanitizer deletes keys from the
  dictionaries it is given, so the objects live in a store: the store is the list of all
  dictionary and list objects, the address of an object is its index, and \<open>JRef a\<close> is a
  reference to the object at address \<open>a\<close>. A dictionary is the list of its items in
  insertion order; its keys are pairwise different.
\<close>

datatype jval = JNull | JBool bool | JInt int | JStr string | JRef nat

datatype obj = DictObj "(string \<times> jval) list" | ListObj "jval list"

type_synonym heap = "obj list"

text \<open>\<open>isinstance(x, dict)\<close> and \<open>isinstance(x, list)\<close>.\<close>

fun is_dict :: "heap \<Rightarrow> jval \<Rightarrow> bool" where
  "is_dict h (JRef a) = (a < length h \<and> (case h ! a of DictObj d \<Rightarrow> True | ListObj l \<Rightarrow> False))"
| "is_dict h v = False"

fun is_list :: "heap \<Rightarrow> jval \<Rightarrow> bool" where
  "is_list h (JRef a) = (a < length h \<and> (case h ! a of DictObj d \<Rightarrow> False | ListObj l \<Rightarrow> True))"
| "is_list h v = False"

text \<open>The items of the dictionary, and the elements of the list, at an address.\<close>

definition dict_at :: "heap \<Rightarrow> nat \<Rightarrow> (string \<times> jval) list" where
  "dict_at h a = (case h ! a of DictObj d \<Rightarrow> d | ListObj l \<Rightarrow> [])"

definition list_at :: "heap \<Rightarrow> nat \<Rightarrow> jval list" where
  "list_at h a = (case h ! a of DictObj d \<Rightarrow> [] | ListObj l \<Rightarrow> l)"

definition unsupported_fields :: "string list" where
  "unsupported_fields =
     [''default'', ''minimum'', ''maximum'', ''minLength'', ''maxLength'', ''minItems'',
      ''maxItems'', ''uniqueItems'', ''additionalProperties'', ''$schema'', ''$ref'', ''$defs'']"

text \<open>\<open>if field in schema: del schema[field]\<close>, for one field and for the whole list.\<close>

definition del_key :: "string \<Rightarrow> (string \<times> jval) list \<Rightarrow> (string \<times> jval) list" where
  "del_key k d = filter (\<lambda>e. fst e \<noteq> k) d"

definition remove_unsupported :: "(string \<times> jval) list \<Rightarrow> (string \<times> jval) list" where
  "remove_unsupported d = fold del_key unsupported_fields d"

text \<open>
  The rule for \<open>format\<close>: in a schema of type \<open>string\<close> a format other than \<open>enum\<close> and
  \<open>date-time\<close> is deleted.
\<close>

definition clean_format :: "(string \<times> jval) list \<Rightarrow> (string \<times> jval) list" where
  "clean_format d =
     (if map_of d ''type'' = Some (JStr ''string'') \<and> map_of d ''format'' \<noteq> None then
        (if the (map_of d ''format'') \<notin> set [JStr ''enum'', JStr ''date-time'']
         then del_key ''format'' d else d)
      else d)"

text \<open>What \<open>_sanitize_parameters_recursive\<close> does to the dictionary it is called on.\<close>

definition clean_dict :: "(string \<times> jval) list \<Rightarrow> (string \<times> jval) list" where
  "clean_dict d = clean_format (remove_unsupported d)"

text \<open>
  The recursion of \<open>_sanitize_parameters_recursive\<close>, kept as a list of the work still to
  do. \<open>Visit a\<close> is a pending call on the object at address \<open>a\<close>. \<open>Check p n\<close> is the next
  step of the iterator of \<open>schema['properties'].items()\<close> over the dictionary at address
  \<open>p\<close>, which had \<open>n\<close> items when the loop began: Python raises \<open>RuntimeError\<close>
  (dictionary changed size during iteration) when the dictionary has another size at
  that step, which happens when the dictionary of properties is itself reached as a
  schema and loses a key.
\<close>

datatype work = Visit nat | Check nat nat

fun ref_addr :: "jval \<Rightarrow> nat" where
  "ref_addr (JRef a) = a"
| "ref_addr v = 0"

text \<open>
  The recursive calls made for a dictionary \<open>d\<close> that has just been cleaned, in source
  order: the values of \<open>properties\<close> that are dictionaries, \<open>items\<close> when it is a
  dictionary, and the dictionaries in the lists \<open>anyOf\<close>, \<open>oneOf\<close> and \<open>allOf\<close>.
\<close>

definition properties_work :: "heap \<Rightarrow> (string \<times> jval) list \<Rightarrow> work list" where
  "properties_work h d =
     (case map_of d ''properties'' of
        None \<Rightarrow> []
      | Some p \<Rightarrow>
          if is_dict h p then
            concat (map (\<lambda>e. if is_dict h (snd e)
                              then [Visit (ref_addr (snd e)),
                                    Check (ref_addr p) (length (dict_at h (ref_addr p)))]
                              else [])
                        (dict_at h (ref_addr p)))
          else [])"

definition items_work :: "heap \<Rightarrow> (string \<times> jval) list \<Rightarrow> work list" where
  "items_work h d =
     (case map_of d ''items'' of
        None \<Rightarrow> []
      | Some i \<Rightarrow> if is_dict h i then [Visit (ref_addr i)] else [])"

definition of_work :: "string \<Rightarrow> heap \<Rightarrow> (string \<times> jval) list \<Rightarrow> work list" where
  "of_work key h d =
     (case map_of d key of
        None \<Rightarrow> []
      | Some l \<Rightarrow>
          if is_list h l then
            concat (map (\<lambda>item. if is_dict h item then [Visit (ref_addr item)] else [])
                        (list_at h (ref_addr l)))
          else [])"

definition children_work :: "heap \<Rightarrow> (string \<times> jval) list \<Rightarrow> work list" where
  "children_work h d =
     properties_work h d @ items_work h d @ of_work ''anyOf'' h d @ of_work ''oneOf'' h d
       @ of_work ''allOf'' h d"










section \<open>Notions used to state the properties\<close>

text \<open>
  The entry \<open>_set_status\<close> replaces: the first call that has the given id and is not
  terminal, as its index.
\<close>

fun find_target :: "string \<Rightarrow> 'w tool_call list \<Rightarrow> nat option" where
  "find_target cid [] = None"
| "find_target cid (c # cs) =
     (if call_id (request c) = cid \<and> \<not> is_terminal (status c) then Some 0
      else map_option Suc (find_target cid cs))"



text \<open>No two calls that are not terminal carry the same call id.\<close>

definition nt_distinct :: "'w tool_call list \<Rightarrow> bool" where
  "nt_distinct cs =
     (\<forall>i < length cs. \<forall>j < length cs.
        \<not> is_terminal (status (cs ! i)) \<and> \<not> is_terminal (status (cs ! j)) \<and>
        call_id (request (cs ! i)) = call_id (request (cs ! j)) \<longrightarrow> i = j)"

text \<open>
  The status changes made at the call sites of \<open>_set_status\<close>: in \<open>schedule\<close> from
  validating to awaiting approval, scheduled or error; in
  \<open>_attempt_execution_of_scheduled_calls\<close> from scheduled to executing and from executing
  to success or error; in \<open>handle_confirmation_response\<close> from awaiting approval to
  cancelled or scheduled. Each is an edge of the transition diagram of the specification.
\<close>

definition scheduler_edge :: "call_status \<Rightarrow> call_status \<Rightarrow> bool" where
  "scheduler_edge a b =
     ((a, b) \<in> set [(Validating, AwaitingApproval), (Validating, Scheduled), (Validating, Error),
                    (Scheduled, Executing), (Executing, Success), (Executing, Error),
                    (AwaitingApproval, Cancelled), (AwaitingApproval, Scheduled)])"

definition valid_trace :: "(string \<times> call_status \<times> call_status) list \<Rightarrow> bool" where
  "valid_trace tr =
     (\<forall>t \<in> set tr. \<not> is_terminal (fst (snd t)) \<and> scheduler_edge (fst (snd t)) (snd (snd t)))"

text \<open>
  A sequence of scheduler operations: calls of \<open>schedule\<close> and of
  \<open>handle_confirmation_response\<close>, each with the surroundings it runs in, and changes of
  the outside world between them.
\<close>

datatype 'w operation =
    Schedule "'w env" "request_info list"
  | Confirm "'w env" string string "pydict option"
  | Outside 'w

fun run :: "'w operation list \<Rightarrow> 'w scheduler \<Rightarrow> 'w scheduler" where
  "run [] s = s"
| "run (Schedule env requests # ops) s = run ops (snd (schedule env requests s))"
| "run (Confirm env cid outcome payload # ops) s =
     run ops (handle_confirmation_response env cid outcome payload s)"
| "run (Outside w # ops) s = run ops (s\<lparr>world := w\<rparr>)"

text \<open>Every batch handed to \<open>schedule\<close> has pairwise different call ids.\<close>

fun unique_call_ids :: "'w operation list \<Rightarrow> bool" where
  "unique_call_ids [] = True"
| "unique_call_ids (Schedule env requests # ops) =
     (distinct (map call_id requests) \<and> unique_call_ids ops)"
| "unique_call_ids (Confirm env cid outcome payload # ops) = unique_call_ids ops"
| "unique_call_ids (Outside w # ops) = unique_call_ids ops"

text \<open>Invariants of the loops, used in the proofs.\<close>

definition exec_ok :: "'w tool_call list \<Rightarrow> bool" where
  "exec_ok cs =
     (nt_distinct cs \<and>
      (\<forall>j < length cs. status (cs ! j) \<noteq> Validating \<and> status (cs ! j) \<noteq> Executing))"

definition settled :: "'w tool_call list \<Rightarrow> bool" where
  "settled cs = (\<forall>j < length cs. is_terminal (status (cs ! j)) \<or> status (cs ! j) = AwaitingApproval)"

definition val_ok :: "'w tool_call list \<Rightarrow> 'w tool_call list \<Rightarrow> bool" where
  "val_ok rest cs =
     (distinct (map (\<lambda>c. call_id (request c)) rest) \<and>
      nt_distinct cs \<and>
      (\<forall>j < length cs. status (cs ! j) \<noteq> Executing) \<and>
      (\<forall>j < length cs. status (cs ! j) = Validating \<longrightarrow>
          (\<exists>c \<in> set rest. status c = Validating \<and> call_id (request c) = call_id (request (cs ! j)))) \<and>
      (\<forall>j < length cs. \<not> is_terminal (status (cs ! j)) \<and>
          (\<exists>c \<in> set rest. call_id (request c) = call_id (request (cs ! j))) \<longrightarrow>
          status (cs ! j) = Validating))"





text \<open>Notions for the parameter sanitizer.\<close>

text \<open>An object after the cleaning of \<open>_sanitize_parameters_recursive\<close>; a list stays as it is.\<close>

definition clean_obj :: "obj \<Rightarrow> obj" where
  "clean_obj ob = (case ob of DictObj d \<Rightarrow> DictObj (clean_dict d) | ListObj l \<Rightarrow> ListObj l)"


text \<open>The keys of a dictionary that the cleaning keeps.\<close>

definition kept :: "(string \<times> jval) list \<Rightarrow> string \<Rightarrow> bool" where
  "kept d k =
     (k \<notin> set unsupported_fields \<and>
      \<not> (k = ''format'' \<and> clean_format (remove_unsupported d) \<noteq> remove_unsupported d))"


text \<open>
  An object that has only lost keys: a dictionary is the earlier one without the items
  of some keys, a list is unchanged. A store whose objects have only lost keys; and the
  same for the objects below an address, in stores that may have grown.
\<close>

definition shrinks :: "obj \<Rightarrow> obj \<Rightarrow> bool" where
  "shrinks ob ob' =
     (case ob of
        DictObj d \<Rightarrow> (\<exists>P. ob' = DictObj (filter (\<lambda>e. P (fst e)) d))
      | ListObj l \<Rightarrow> ob' = ListObj l)"

definition heap_shrinks :: "heap \<Rightarrow> heap \<Rightarrow> bool" where
  "heap_shrinks h h' = (length h' = length h \<and> (\<forall>x < length h. shrinks (h ! x) (h' ! x)))"


text \<open>The three kinds of recursive calls, as functions of the value found under the key.\<close>

definition properties_work_of :: "heap \<Rightarrow> jval option \<Rightarrow> work list" where
  "properties_work_of h m =
     (case m of
        None \<Rightarrow> []
      | Some p \<Rightarrow>
          if is_dict h p then
            concat (map (\<lambda>e. if is_dict h (snd e)
                              then [Visit (ref_addr (snd e)),
                                    Check (ref_addr p) (length (dict_at h (ref_addr p)))]
                              else [])
                        (dict_at h (ref_addr p)))
          else [])"

definition items_work_of :: "heap \<Rightarrow> jval option \<Rightarrow> work list" where
  "items_work_of h m =
     (case m of None \<Rightarrow> [] | Some i \<Rightarrow> if is_dict h i then [Visit (ref_addr i)] else [])"

definition of_work_of :: "heap \<Rightarrow> jval option \<Rightarrow> work list" where
  "of_work_of h m =
     (case m of
        None \<Rightarrow> []
      | Some l \<Rightarrow>
          if is_list h l then
            concat (map (\<lambda>item. if is_dict h item then [Visit (ref_addr item)] else [])
                        (list_at h (ref_addr l)))
          else [])"

text \<open>
  The sub-schemas of a schema: \<open>child h a y\<close> holds when the object at address \<open>a\<close> is a
  dictionary and the dictionary at address \<open>y\<close> is a value of its \<open>properties\<close>, is its
  \<open>items\<close>, or is an element of its \<open>anyOf\<close>, \<open>oneOf\<close> or \<open>allOf\<close>. The nested
  sub-schemas of \<open>a\<close> are the \<open>y\<close> with \<open>(child h)\<^sup>+\<^sup>+ a y\<close>.
\<close>

definition child :: "heap \<Rightarrow> nat \<Rightarrow> nat \<Rightarrow> bool" where
  "child h a y \<longleftrightarrow> is_dict h (JRef a) \<and> Visit y \<in> set (children_work h (dict_at h a))"






section \<open>Concrete inputs\<close>

text \<open>
  A small world for running the definitions: the world is the flag of the abort signal,
  the clock always reads 100, and the registry knows three tools.
\<close>

definition ok_result :: tool_result where
  "ok_result = \<lparr>summary = None, llm_content = ''ok'', return_display = None, error = None\<rparr>"

definition now_tool :: "bool tool" where
  "now_tool =
     \<lparr>tool_name = ''now'', description = ''now'', parameter_schema = 0,
      should_confirm_execute = (\<lambda>a w. (Inr None, w)),
      execute = (\<lambda>a w. (Inr ok_result, w))\<rparr>"

definition delete_tool :: "bool tool" where
  "delete_tool =
     \<lparr>tool_name = ''delete_file'', description = ''delete_file'', parameter_schema = 0,
      should_confirm_execute = (\<lambda>a w. (Inr (Some (ConfirmationDetails ''exec'' ''Delete file'')), w)),
      execute = (\<lambda>a w. (Inr ok_result, w))\<rparr>"

text \<open>
  A tool that honours the abort signal as the tools of this repository do: the signal is
  aborted while it runs, it stops early and returns what it has.
\<close>

definition glob_tool :: "bool tool" where
  "glob_tool =
     \<lparr>tool_name = ''glob'', description = ''glob'', parameter_schema = 0,
      should_confirm_execute = (\<lambda>a w. (Inr None, w)),
      execute = (\<lambda>a w. (Inr ok_result, True))\<rparr>"

definition demo_env :: "bool env" where
  "demo_env =
     \<lparr>get_tool = (\<lambda>n. if n = ''now'' then Some now_tool
                        else if n = ''delete_file'' then Some delete_tool
                        else if n = ''glob'' then Some glob_tool
                        else None),
      convert_to_function_response =
        (\<lambda>n c r. Inr (FunctionResponse c n [(''output'', llm_content r)])),
      time_time = (\<lambda>w. (100, w)),
      aborted = (\<lambda>w. w)\<rparr>"

definition demo_request :: "string \<Rightarrow> string \<Rightarrow> request_info" where
  "demo_request cid n =
     \<lparr>call_id = cid, name = n, args = Map.empty, is_client_initiated = False, prompt_id = ''p1''\<rparr>"

definition demo_scheduler :: "bool tool_call list \<Rightarrow> bool scheduler" where
  "demo_scheduler cs = (init_scheduler True True False)\<lparr>tool_calls := cs\<rparr>"


definition waiting_scheduler :: "bool scheduler" where
  "waiting_scheduler =
     demo_scheduler [WaitingToolCall (demo_request ''c1'' ''delete_file'') (Some delete_tool)
                       (ConfirmationD (ConfirmationDetails ''exec'' ''Delete file'')) (Some 100)]"


definition empty_registry :: "bool registry" where
  "empty_registry = \<lparr>tools = [], capability_index = Map.empty, tag_index = Map.empty\<rparr>"

definition echo_tool :: "bool tool" where
  "echo_tool =
     \<lparr>tool_name = ''srv__echo'', description = ''echo'', parameter_schema = 0,
      should_confirm_execute = (\<lambda>a w. (Inr None, w)),
      execute = (\<lambda>a w. (Inr ok_result, w))\<rparr>"









section \<open>The completion sweep\<close>

lemma sweep_condition_iff:
  "sweep_condition cs \<longleftrightarrow>
     cs \<noteq> [] \<and> (\<forall>c \<in> set cs. is_terminal (status c)) \<and>
     (\<forall>c \<in> set cs. status c \<noteq> AwaitingApproval) \<and> (\<forall>c \<in> set cs. status c \<noteq> Executing)"
proof -
  have t: "\<And>x. (x = Success \<or> x = Error \<or> x = Cancelled) = is_terminal x"
    by (case_tac x) simp_all
  show ?thesis
    by (simp add: sweep_condition_def Let_def list_all_iff list_ex_iff t)
qed

text \<open>
  Claim C2. \<open>_check_and_notify_completion\<close> clears \<open>tool_calls\<close> exactly when the list is
  not empty, every call is terminal, none awaits approval and none is executing. When
  it clears, the calls captured before the clearing are what \<open>on_all_tools_complete\<close>
  receives, once, and the listener is then notified of the empty list (each callback
  when it was supplied). Otherwise the scheduler is left as it was, so running the sweep
  twice is the same as running it once. \<open>_set_status\<close> ends with the sweep, applied to
  the list its loop produced.
\<close>

theorem completion_sweep:
  "check_and_notify_completion s =
     (if tool_calls s \<noteq> [] \<and> (\<forall>c \<in> set (tool_calls s). is_terminal (status c)) \<and>
         (\<forall>c \<in> set (tool_calls s). status c \<noteq> AwaitingApproval) \<and>
         (\<forall>c \<in> set (tool_calls s). status c \<noteq> Executing)
      then s\<lparr>tool_calls := [],
             events := events s
               @ (if on_all_tools_complete s then [AllToolsComplete (tool_calls s)] else [])
               @ (if on_tool_calls_update s then [ToolCallsUpdate []] else [])\<rparr>
      else s)
   \<and> check_and_notify_completion (check_and_notify_completion s) = check_and_notify_completion s
   \<and> (\<exists>s'. set_status env cid st d s = check_and_notify_completion s'
            \<and> tool_calls s' = fst (set_status_loop env cid st d (tool_calls s) (world s)))"
proof -
  have a: "check_and_notify_completion s =
     (if tool_calls s \<noteq> [] \<and> (\<forall>c \<in> set (tool_calls s). is_terminal (status c)) \<and>
         (\<forall>c \<in> set (tool_calls s). status c \<noteq> AwaitingApproval) \<and>
         (\<forall>c \<in> set (tool_calls s). status c \<noteq> Executing)
      then s\<lparr>tool_calls := [],
             events := events s
               @ (if on_all_tools_complete s then [AllToolsComplete (tool_calls s)] else [])
               @ (if on_tool_calls_update s then [ToolCallsUpdate []] else [])\<rparr>
      else s)"
    by (simp add: check_and_notify_completion_def sweep_condition_iff Let_def
        notify_tool_calls_update_def)
  have b: "check_and_notify_completion (check_and_notify_completion s) = check_and_notify_completion s"
    by (simp add: check_and_notify_completion_def Let_def notify_tool_calls_update_def)
  have c: "\<exists>s'. set_status env cid st d s = check_and_notify_completion s'
            \<and> tool_calls s' = fst (set_status_loop env cid st d (tool_calls s) (world s))"
    by (cases "set_status_loop env cid st d (tool_calls s) (world s)")
       (auto simp: set_status_def notify_tool_calls_update_def)
  from a b c show ?thesis by blast
qed

theorem completion_sweep_witness:
  "check_and_notify_completion
     (demo_scheduler [ErroredToolCall (demo_request ''c1'' ''nope'') NoDetails (Some 0)]) =
     (demo_scheduler [])\<lparr>events :=
        [AllToolsComplete [ErroredToolCall (demo_request ''c1'' ''nope'') NoDetails (Some 0)],
         ToolCallsUpdate []]\<rparr>
   \<and> check_and_notify_completion
       (demo_scheduler [WaitingToolCall (demo_request ''c1'' ''delete_file'') None NoDetails None]) =
     demo_scheduler [WaitingToolCall (demo_request ''c1'' ''delete_file'') None NoDetails None]"
  using completion_sweep [of "demo_scheduler [ErroredToolCall (demo_request ''c1'' ''nope'') NoDetails (Some 0)]"
                             demo_env "''c1''" Error NoDetails]
        completion_sweep [of "demo_scheduler [WaitingToolCall (demo_request ''c1'' ''delete_file'') None NoDetails None]"
                             demo_env "''c1''" Error NoDetails]
  by (simp add: demo_scheduler_def init_scheduler_def)


section \<open>Scheduling while calls are running\<close>

text \<open>
  Claim C4. When some call is executing or awaiting approval, \<open>schedule\<close> raises and
  returns the scheduler exactly as it was: no call added, no status changed, no
  callback invoked. When no call is in either state, \<open>schedule\<close> does not raise.
\<close>

theorem schedule_running_raises:
  "((\<exists>c \<in> set (tool_calls s). status c = Executing \<or> status c = AwaitingApproval) \<longrightarrow>
      schedule env requests s =
        (Inl (Exception ''Cannot schedule new tool calls while others are running''), s))
   \<and> (\<not> (\<exists>c \<in> set (tool_calls s). status c = Executing \<or> status c = AwaitingApproval) \<longrightarrow>
      fst (schedule env requests s) = Inr ())"
  by (auto simp: schedule_def is_running_def list_ex_iff Let_def split: prod.splits)

theorem schedule_running_raises_witness:
  "schedule demo_env [demo_request ''c2'' ''now'']
     (demo_scheduler [ExecutingToolCall (demo_request ''c1'' ''now'') (Some now_tool) None (Some 100)]) =
     (Inl (Exception ''Cannot schedule new tool calls while others are running''),
      demo_scheduler [ExecutingToolCall (demo_request ''c1'' ''now'') (Some now_tool) None (Some 100)])
   \<and> fst (schedule demo_env [demo_request ''c2'' ''now''] (demo_scheduler [])) = Inr ()"
  using schedule_running_raises [of "demo_scheduler [ExecutingToolCall (demo_request ''c1'' ''now'') (Some now_tool) None (Some 100)]"
                                    demo_env "[demo_request ''c2'' ''now'']"]
        schedule_running_raises [of "demo_scheduler []" demo_env "[demo_request ''c2'' ''now'']"]
  by (simp add: demo_scheduler_def init_scheduler_def)


section \<open>How \<open>_set_status\<close> finds and replaces a call\<close>

lemma terminal_set: "(x = Success \<or> x = Error \<or> x = Cancelled) = is_terminal x"
  by (cases x) simp_all

lemma new_call_Validating: "new_call env Validating d tc w = None"
  by simp

lemma new_call_Some:
  "st \<noteq> Validating \<Longrightarrow> \<exists>tc' w'. new_call env st d tc w = Some (tc', w') \<and> status tc' = st
      \<and> request tc' = request tc"
  by (cases st) (auto split: prod.splits)

lemma loop_Validating: "set_status_loop env cid Validating d cs w = (cs, w, [])"
  by (induction cs) (auto simp: terminal_set)

lemma loop_miss: "find_target cid cs = None \<Longrightarrow> set_status_loop env cid st d cs w = (cs, w, [])"
  by (induction cs) (auto simp: terminal_set split: if_splits)

lemma loop_hit:
  "find_target cid cs = Some k \<Longrightarrow> new_call env st d (cs ! k) w = Some (tc', w') \<Longrightarrow>
   set_status_loop env cid st d cs w = (cs[k := tc'], w', [(cid, status (cs ! k), st)])"
proof (induction cs arbitrary: k)
  case Nil
  then show ?case by simp
next
  case (Cons c cs)
  show ?case
  proof (cases "call_id (request c) = cid \<and> \<not> is_terminal (status c)")
    case True
    with Cons.prems show ?thesis by (auto simp: terminal_set)
  next
    case False
    with Cons.prems obtain k' where k: "k = Suc k'" "find_target cid cs = Some k'"
      by auto
    with Cons.prems have "new_call env st d (cs ! k') w = Some (tc', w')" by simp
    from Cons.IH [OF k(2) this] False k show ?thesis by (auto simp: terminal_set)
  qed
qed

lemma find_target_Some:
  "find_target cid cs = Some k \<Longrightarrow>
     k < length cs \<and> call_id (request (cs ! k)) = cid \<and> \<not> is_terminal (status (cs ! k))
     \<and> (\<forall>i < k. call_id (request (cs ! i)) = cid \<longrightarrow> is_terminal (status (cs ! i)))"
proof (induction cs arbitrary: k)
  case Nil
  then show ?case by simp
next
  case (Cons c cs)
  show ?case
  proof (cases "call_id (request c) = cid \<and> \<not> is_terminal (status c)")
    case True
    with Cons.prems show ?thesis by auto
  next
    case False
    with Cons.prems obtain k' where k: "k = Suc k'" "find_target cid cs = Some k'"
      by auto
    from Cons.IH [OF k(2)] False k show ?thesis
      by (auto simp: less_Suc_eq_0_disj)
  qed
qed

lemma find_target_None:
  "find_target cid cs = None \<Longrightarrow>
     \<forall>c \<in> set cs. call_id (request c) = cid \<longrightarrow> is_terminal (status c)"
  by (induction cs) (auto split: if_splits)

lemma find_target_first:
  "k < length cs \<Longrightarrow> call_id (request (cs ! k)) = cid \<Longrightarrow> \<not> is_terminal (status (cs ! k)) \<Longrightarrow>
   (\<forall>i < k. call_id (request (cs ! i)) = cid \<longrightarrow> is_terminal (status (cs ! i))) \<Longrightarrow>
   find_target cid cs = Some k"
proof (induction cs arbitrary: k)
  case Nil
  then show ?case by simp
next
  case (Cons c cs)
  show ?case
  proof (cases k)
    case 0
    with Cons.prems show ?thesis by simp
  next
    case (Suc k')
    with Cons.prems have c: "\<not> (call_id (request c) = cid \<and> \<not> is_terminal (status c))"
      by (metis nth_Cons_0 zero_less_Suc)
    have "find_target cid cs = Some k'"
    proof (rule Cons.IH)
      show "k' < length cs" using Cons.prems Suc by simp
      show "call_id (request (cs ! k')) = cid" using Cons.prems Suc by simp
      show "\<not> is_terminal (status (cs ! k'))" using Cons.prems Suc by simp
      show "\<forall>i<k'. call_id (request (cs ! i)) = cid \<longrightarrow> is_terminal (status (cs ! i))"
      proof (intro allI impI)
        fix i assume "i < k'" "call_id (request (cs ! i)) = cid"
        with Cons.prems(4) Suc have "is_terminal (status ((c # cs) ! Suc i))"
          by (metis Suc_less_eq nth_Cons_Suc)
        then show "is_terminal (status (cs ! i))" by simp
      qed
    qed
    with c Suc show ?thesis by simp
  qed
qed


lemma find_target_update:
  "find_target cid cs = Some k \<Longrightarrow> call_id (request tc') = cid \<Longrightarrow> \<not> is_terminal (status tc') \<Longrightarrow>
   find_target cid (cs[k := tc']) = Some k"
proof -
  assume a: "find_target cid cs = Some k" "call_id (request tc') = cid" "\<not> is_terminal (status tc')"
  from find_target_Some [OF a(1)] have k: "k < length cs"
    and f: "\<forall>i < k. call_id (request (cs ! i)) = cid \<longrightarrow> is_terminal (status (cs ! i))"
    by auto
  show ?thesis
    by (rule find_target_first) (use k f a in auto)
qed



lemma notify_simps [simp]:
  "tool_calls (notify_tool_calls_update s) = tool_calls s"
  "transitions (notify_tool_calls_update s) = transitions s"
  "world (notify_tool_calls_update s) = world s"
  "on_all_tools_complete (notify_tool_calls_update s) = on_all_tools_complete s"
  "on_tool_calls_update (notify_tool_calls_update s) = on_tool_calls_update s"
  by (simp_all add: notify_tool_calls_update_def)

lemma check_simps [simp]:
  "transitions (check_and_notify_completion s) = transitions s"
  "world (check_and_notify_completion s) = world s"
  "on_all_tools_complete (check_and_notify_completion s) = on_all_tools_complete s"
  "on_tool_calls_update (check_and_notify_completion s) = on_tool_calls_update s"
  by (simp_all add: check_and_notify_completion_def Let_def)

lemma check_tool_calls:
  "tool_calls (check_and_notify_completion s) =
     (if sweep_condition (tool_calls s) then [] else tool_calls s)"
  by (auto simp: check_and_notify_completion_def Let_def sweep_condition_def)

lemma check_not_swept:
  "\<not> sweep_condition (tool_calls s) \<Longrightarrow> check_and_notify_completion s = s"
  by (auto simp: check_and_notify_completion_def Let_def)

lemma set_status_miss:
  "find_target cid (tool_calls s) = None \<Longrightarrow>
   set_status env cid st d s = check_and_notify_completion (notify_tool_calls_update s)"
  by (simp add: set_status_def loop_miss)

lemma set_status_hit:
  assumes "find_target cid (tool_calls s) = Some k" "st \<noteq> Validating"
  shows "\<exists>tc' w'. new_call env st d (tool_calls s ! k) (world s) = Some (tc', w') \<and>
           status tc' = st \<and> request tc' = request (tool_calls s ! k) \<and>
           set_status env cid st d s =
             check_and_notify_completion (notify_tool_calls_update
               (s\<lparr>tool_calls := (tool_calls s)[k := tc'], world := w',
                  transitions := transitions s @ [(cid, status (tool_calls s ! k), st)]\<rparr>))"
proof -
  from new_call_Some [OF assms(2), of env d "tool_calls s ! k" "world s"] obtain tc' w' where
    n: "new_call env st d (tool_calls s ! k) (world s) = Some (tc', w')"
       "status tc' = st" "request tc' = request (tool_calls s ! k)"
    by blast
  from loop_hit [OF assms(1) n(1)] n show ?thesis
    by (simp add: set_status_def)
qed

lemma sweep_condition_nth:
  "k < length cs \<Longrightarrow> \<not> is_terminal (status (cs ! k)) \<Longrightarrow> \<not> sweep_condition cs"
  by (auto simp: sweep_condition_def Let_def list_all_iff terminal_set)

text \<open>Setting a call to executing: the list afterwards and the transition made.\<close>

lemma set_status_executing:
  assumes "find_target cid (tool_calls s) = Some k"
  shows "\<exists>tc'. status tc' = Executing \<and> request tc' = request (tool_calls s ! k) \<and>
           tool_calls (set_status env cid Executing d s) = (tool_calls s)[k := tc'] \<and>
           transitions (set_status env cid Executing d s) =
             transitions s @ [(cid, status (tool_calls s ! k), Executing)]"
proof -
  have "Executing \<noteq> Validating" by simp
  from set_status_hit [OF assms this, of env d] obtain tc' w' where
    n: "status tc' = Executing" "request tc' = request (tool_calls s ! k)"
       "set_status env cid Executing d s =
          check_and_notify_completion (notify_tool_calls_update
            (s\<lparr>tool_calls := (tool_calls s)[k := tc'], world := w',
               transitions := transitions s @ [(cid, status (tool_calls s ! k), Executing)]\<rparr>))"
    by blast
  from find_target_Some [OF assms] have k: "k < length (tool_calls s)" by simp
  have "\<not> sweep_condition ((tool_calls s)[k := tc'])"
    by (rule sweep_condition_nth [of k]) (use k n in auto)
  with n show ?thesis
    by (auto simp: check_tool_calls)
qed


text \<open>The second status change of \<open>execute_scheduled_call\<close>, whatever branch is taken.\<close>

lemma execute_scheduled_call_shape:
  "\<exists>b d' w'. (b = Success \<or> b = Error) \<and>
     execute_scheduled_call env tc s =
       set_status env (call_id (request tc)) b d'
         ((set_status env (call_id (request tc)) Executing NoDetails s)\<lparr>world := w'\<rparr>)"
proof -
  let ?x = "call_id (request tc)"
  let ?s1 = "set_status env ?x Executing NoDetails s"
  show ?thesis
  proof (cases "existing_tool tc")
    case None
    have "execute_scheduled_call env tc s =
            set_status env ?x Error
              (ResponseD (execution_error_response (request tc) (attribute_error ''execute'')))
              (?s1\<lparr>world := world ?s1\<rparr>)"
      using None by (simp add: execute_scheduled_call_def Let_def)
    then show ?thesis by blast
  next
    case (Some t)
    obtain res w where ex: "execute t (args (request tc)) (world ?s1) = (res, w)"
      by (cases "execute t (args (request tc)) (world ?s1)")
    show ?thesis
    proof (cases res)
      case (Inl e)
      have "execute_scheduled_call env tc s =
              set_status env ?x Error (ResponseD (execution_error_response (request tc) e))
                (?s1\<lparr>world := w\<rparr>)"
        using Some ex Inl by (simp add: execute_scheduled_call_def Let_def)
      then show ?thesis by blast
    next
      case (Inr result)
      show ?thesis
      proof (cases "convert_to_function_response env (name (request tc)) ?x result")
        case (Inl e)
        have "execute_scheduled_call env tc s =
                set_status env ?x Error (ResponseD (execution_error_response (request tc) e))
                  (?s1\<lparr>world := w\<rparr>)"
          using Some ex Inr Inl by (simp add: execute_scheduled_call_def Let_def)
        then show ?thesis by blast
      next
        case (Inr fr)
        note fr = Inr
        show ?thesis
        proof (cases "truthy (error result)")
          case True
          have "execute_scheduled_call env tc s =
                  set_status env ?x Error
                    (ResponseD \<lparr>resp_call_id = ?x, response_parts = fr,
                                result_display = return_display result,
                                resp_error = Some (Exception (the (error result)))\<rparr>)
                    (?s1\<lparr>world := w\<rparr>)"
            using Some ex \<open>res = Inr result\<close> fr True
            by (simp add: execute_scheduled_call_def Let_def)
          then show ?thesis by blast
        next
          case False
          have "execute_scheduled_call env tc s =
                  set_status env ?x Success
                    (ResponseD \<lparr>resp_call_id = ?x, response_parts = fr,
                                result_display = return_display result,
                                resp_error = None\<rparr>)
                    (?s1\<lparr>world := w\<rparr>)"
            using Some ex \<open>res = Inr result\<close> fr False
            by (simp add: execute_scheduled_call_def Let_def)
          then show ?thesis by blast
        qed
      qed
    qed
  qed
qed





section \<open>Evaluating the scheduler on concrete inputs\<close>

lemmas sched_defs = schedule_def is_running_def notify_tool_calls_update_def
  check_and_notify_completion_def sweep_condition_def set_status_def duration_def
  execute_scheduled_call_def execution_step_def attempt_execution_of_scheduled_calls_def
  handle_confirmation_response_def init_scheduler_def demo_scheduler_def demo_env_def
  demo_request_def now_tool_def delete_tool_def glob_tool_def ok_result_def truthy_def Let_def


section \<open>The execution path and the abort signal\<close>



section \<open>Order of execution within a batch\<close>



section \<open>A batch of unknown tools\<close>

text \<open>
  Claim C5 at a batch whose only request names a tool the registry does not have. The
  error call is created as the claim says, with duration 0 and a function response
  carrying the request's id and name. No \<open>_set_status\<close> follows, so the completion sweep
  never runs: the call stays in \<open>tool_calls\<close> and \<open>on_all_tools_complete\<close> is not invoked.
\<close>

theorem unknown_tool_batch_not_completed:
  "schedule demo_env [demo_request ''c1'' ''nope''] (demo_scheduler []) =
     (Inr (),
      (demo_scheduler [ErroredToolCall (demo_request ''c1'' ''nope'')
                         (ResponseD (not_found_response (demo_request ''c1'' ''nope''))) (Some 0)])
        \<lparr>events := [ToolCallsUpdate [ErroredToolCall (demo_request ''c1'' ''nope'')
                         (ResponseD (not_found_response (demo_request ''c1'' ''nope''))) (Some 0)]]\<rparr>)"
  by (simp add: sched_defs)


section \<open>The response of a cancelled call\<close>

text \<open>
  Claim C3 at a call cancelled through \<open>handle_confirmation_response\<close>. The completed
  call handed to \<open>on_all_tools_complete\<close> carries the response built by
  \<open>cancel_response\<close>, whose parts are the text \<open>User cancelled the operation\<close> and not
  a function response with the call's id and name.
\<close>

theorem cancelled_call_has_no_function_response:
  "handle_confirmation_response demo_env ''c1'' ''cancel'' None
     (demo_scheduler [WaitingToolCall (demo_request ''c1'' ''delete_file'') (Some delete_tool)
                        (ConfirmationD (ConfirmationDetails ''exec'' ''Delete file'')) (Some 100)]) =
   (demo_scheduler [])
     \<lparr>events :=
        [ToolCallsUpdate [CancelledToolCall (demo_request ''c1'' ''delete_file'') (Some delete_tool)
                           (ResponseD (cancel_response ''c1'')) (Some 0)],
         AllToolsComplete [CancelledToolCall (demo_request ''c1'' ''delete_file'') (Some delete_tool)
                           (ResponseD (cancel_response ''c1'')) (Some 0)],
         ToolCallsUpdate []],
      transitions := [(''c1'', AwaitingApproval, Cancelled)]\<rparr>
   \<and> response_parts (cancel_response ''c1'') = TextPart ''User cancelled the operation''"
  by (simp add: sched_defs cancel_response_def)


section \<open>Responses to a confirmation request\<close>

lemma find_awaiting_first:
  "i < length cs \<Longrightarrow> call_id (request (cs ! i)) = cid \<Longrightarrow> status (cs ! i) = AwaitingApproval \<Longrightarrow>
   (\<forall>k < i. call_id (request (cs ! k)) = cid \<longrightarrow> is_terminal (status (cs ! k))) \<Longrightarrow>
   find_awaiting cid cs = Some i"
proof (induction cs arbitrary: i)
  case Nil
  then show ?case by simp
next
  case (Cons c cs)
  show ?case
  proof (cases i)
    case 0
    with Cons.prems show ?thesis by simp
  next
    case (Suc i')
    from Cons.prems(4) Suc have "call_id (request c) = cid \<longrightarrow> is_terminal (status c)"
      by (metis nth_Cons_0 zero_less_Suc)
    then have c: "\<not> (call_id (request c) = cid \<and> status c = AwaitingApproval)"
      by auto
    have "find_awaiting cid cs = Some i'"
    proof (rule Cons.IH)
      show "i' < length cs" using Cons.prems Suc by simp
      show "call_id (request (cs ! i')) = cid" using Cons.prems Suc by simp
      show "status (cs ! i') = AwaitingApproval" using Cons.prems Suc by simp
      show "\<forall>k<i'. call_id (request (cs ! k)) = cid \<longrightarrow> is_terminal (status (cs ! k))"
      proof (intro allI impI)
        fix k assume "k < i'" "call_id (request (cs ! k)) = cid"
        with Cons.prems(4) Suc have "is_terminal (status ((c # cs) ! Suc k))"
          by (metis Suc_less_eq nth_Cons_Suc)
        then show "is_terminal (status (cs ! k))" by simp
      qed
    qed
    with c Suc show ?thesis by simp
  qed
qed

lemma update_args_simps [simp]:
  "request (update_args p c) = (request c)\<lparr>args := args (request c) ++ p\<rparr>"
  "status (update_args p c) = status c"
  "existing_tool (update_args p c) = existing_tool c"
  "existing_start_time (update_args p c) = existing_start_time c"
  by (cases c; simp)+

lemma set_status_scheduled_at:
  assumes "find_target cid (tool_calls s) = Some i"
  shows "set_status env cid Scheduled d s =
           notify_tool_calls_update
             (s\<lparr>tool_calls := (tool_calls s)[i := ScheduledToolCall (request (tool_calls s ! i))
                    (existing_tool (tool_calls s ! i)) (existing_start_time (tool_calls s ! i))],
                transitions := transitions s @ [(cid, status (tool_calls s ! i), Scheduled)]\<rparr>)"
proof -
  let ?tc = "ScheduledToolCall (request (tool_calls s ! i))
                    (existing_tool (tool_calls s ! i)) (existing_start_time (tool_calls s ! i))"
  have n: "new_call env Scheduled d (tool_calls s ! i) (world s) = Some (?tc, world s)" by simp
  from find_target_Some [OF assms] have i: "i < length (tool_calls s)" by simp
  have "\<not> sweep_condition ((tool_calls s)[i := ?tc])"
    by (rule sweep_condition_nth [of i]) (use i in auto)
  then show ?thesis
    by (simp add: set_status_def loop_hit [OF assms n] check_not_swept)
qed

lemma set_status_cancelled_at:
  assumes "find_target cid (tool_calls s) = Some i"
  shows "set_status env cid Cancelled d s =
           check_and_notify_completion (notify_tool_calls_update
             (s\<lparr>tool_calls := (tool_calls s)[i := CancelledToolCall (request (tool_calls s ! i))
                    (existing_tool (tool_calls s ! i)) d
                    (Some (fst (duration env (existing_start_time (tool_calls s ! i)) (world s)) * 1000))],
                world := snd (duration env (existing_start_time (tool_calls s ! i)) (world s)),
                transitions := transitions s @ [(cid, status (tool_calls s ! i), Cancelled)]\<rparr>))"
proof -
  let ?dw = "duration env (existing_start_time (tool_calls s ! i)) (world s)"
  let ?tc = "CancelledToolCall (request (tool_calls s ! i))
                    (existing_tool (tool_calls s ! i)) d (Some (fst ?dw * 1000))"
  have n: "new_call env Cancelled d (tool_calls s ! i) (world s) = Some (?tc, snd ?dw)"
    by (simp add: case_prod_beta)
  show ?thesis
    by (simp add: set_status_def loop_hit [OF assms n])
qed

text \<open>
  Claim C6, as stated, fails. With the outcome \<open>modify_with_editor\<close> and the empty
  dictionary as payload, the test \<open>and payload\<close> is false and no later branch applies:
  the call is not set to scheduled, it stays awaiting approval.
\<close>

theorem empty_payload_counterexample:
  "handle_confirmation_response demo_env ''c1'' ''modify_with_editor'' (Some Map.empty)
     waiting_scheduler = waiting_scheduler"
  by (simp add: waiting_scheduler_def sched_defs)

text \<open>
  Claim C6, amended. Let the call at index \<open>i\<close> await approval and be the first call
  of its id that is not terminal (as it is when call ids are unique).
  If the outcome is \<open>cancel\<close> or the signal is aborted, the call is replaced by a
  cancelled call whose response is the user-cancelled message.
  Otherwise, if the outcome is \<open>modify_with_editor\<close> and the payload is a dictionary that
  is not empty, the payload is merged into the request's arguments and the call is
  replaced by a scheduled call.
  Otherwise, if the outcome is one of the four proceed variants, the call is replaced by
  a scheduled call.
  In each case the listener is notified and the execution of the scheduled calls is
  attempted on the result.
\<close>

theorem confirmation_response:
  assumes "i < length (tool_calls s)"
    and "call_id (request (tool_calls s ! i)) = cid"
    and "status (tool_calls s ! i) = AwaitingApproval"
    and "\<forall>k < i. call_id (request (tool_calls s ! k)) = cid \<longrightarrow> is_terminal (status (tool_calls s ! k))"
  shows
    "(outcome = ''cancel'' \<or> aborted env (world s) \<longrightarrow>
        handle_confirmation_response env cid outcome payload s =
          attempt_execution_of_scheduled_calls env
            (check_and_notify_completion (notify_tool_calls_update
              (s\<lparr>tool_calls := (tool_calls s)[i := CancelledToolCall (request (tool_calls s ! i))
                     (existing_tool (tool_calls s ! i)) (ResponseD (cancel_response cid))
                     (Some (fst (duration env (existing_start_time (tool_calls s ! i)) (world s)) * 1000))],
                 world := snd (duration env (existing_start_time (tool_calls s ! i)) (world s)),
                 transitions := transitions s @ [(cid, AwaitingApproval, Cancelled)]\<rparr>))))
   \<and> (\<not> (outcome = ''cancel'' \<or> aborted env (world s)) \<and> outcome = ''modify_with_editor'' \<and>
        payload = Some p \<and> p \<noteq> Map.empty \<longrightarrow>
        handle_confirmation_response env cid outcome payload s =
          attempt_execution_of_scheduled_calls env
            (notify_tool_calls_update
              (s\<lparr>tool_calls := (tool_calls s)[i := ScheduledToolCall
                     ((request (tool_calls s ! i))\<lparr>args := args (request (tool_calls s ! i)) ++ p\<rparr>)
                     (existing_tool (tool_calls s ! i)) (existing_start_time (tool_calls s ! i))],
                 transitions := transitions s @ [(cid, AwaitingApproval, Scheduled)]\<rparr>)))
   \<and> (\<not> (outcome = ''cancel'' \<or> aborted env (world s)) \<and>
        outcome \<in> {''proceed_once'', ''proceed_always'', ''proceed_always_server'', ''proceed_always_tool''} \<longrightarrow>
        handle_confirmation_response env cid outcome payload s =
          attempt_execution_of_scheduled_calls env
            (notify_tool_calls_update
              (s\<lparr>tool_calls := (tool_calls s)[i := ScheduledToolCall (request (tool_calls s ! i))
                     (existing_tool (tool_calls s ! i)) (existing_start_time (tool_calls s ! i))],
                 transitions := transitions s @ [(cid, AwaitingApproval, Scheduled)]\<rparr>)))"
proof -
  have fa: "find_awaiting cid (tool_calls s) = Some i"
    by (rule find_awaiting_first) (use assms in auto)
  have ft: "find_target cid (tool_calls s) = Some i"
    by (rule find_target_first) (use assms in auto)
  let ?cs' = "(tool_calls s)[i := update_args p (tool_calls s ! i)]"
  have ft': "find_target cid (tool_calls (s\<lparr>tool_calls := ?cs'\<rparr>)) = Some i"
    using find_target_update [OF ft, of "update_args p (tool_calls s ! i)"] assms by simp
  have r1: "handle_confirmation_response env cid outcome payload s =
          attempt_execution_of_scheduled_calls env
            (check_and_notify_completion (notify_tool_calls_update
              (s\<lparr>tool_calls := (tool_calls s)[i := CancelledToolCall (request (tool_calls s ! i))
                     (existing_tool (tool_calls s ! i)) (ResponseD (cancel_response cid))
                     (Some (fst (duration env (existing_start_time (tool_calls s ! i)) (world s)) * 1000))],
                 world := snd (duration env (existing_start_time (tool_calls s ! i)) (world s)),
                 transitions := transitions s @ [(cid, AwaitingApproval, Cancelled)]\<rparr>)))"
    if c: "outcome = ''cancel'' \<or> aborted env (world s)"
  proof -
    have "handle_confirmation_response env cid outcome payload s =
            attempt_execution_of_scheduled_calls env
              (set_status env cid Cancelled (ResponseD (cancel_response cid)) s)"
    proof -
      have c': "(outcome = ''cancel'' \<or> aborted env (world s)) = True" using c by simp
      show ?thesis
        unfolding handle_confirmation_response_def Let_def
        by (simp only: fa option.case c' if_True)
    qed
    then show ?thesis
      by (simp only: set_status_cancelled_at [OF ft] assms(3))
  qed
  have r2: "handle_confirmation_response env cid outcome payload s =
          attempt_execution_of_scheduled_calls env
            (notify_tool_calls_update
              (s\<lparr>tool_calls := (tool_calls s)[i := ScheduledToolCall
                     ((request (tool_calls s ! i))\<lparr>args := args (request (tool_calls s ! i)) ++ p\<rparr>)
                     (existing_tool (tool_calls s ! i)) (existing_start_time (tool_calls s ! i))],
                 transitions := transitions s @ [(cid, AwaitingApproval, Scheduled)]\<rparr>))"
    if c: "\<not> (outcome = ''cancel'' \<or> aborted env (world s))"
      and m: "outcome = ''modify_with_editor''" and pl: "payload = Some p" "p \<noteq> Map.empty"
  proof -
    have g: "(outcome = ''modify_with_editor'' \<and> payload \<noteq> None \<and> payload \<noteq> Some Map.empty) = True"
      using m pl by simp
    have c': "(outcome = ''cancel'' \<or> aborted env (world s)) = False" using c by simp
    have "handle_confirmation_response env cid outcome payload s =
            attempt_execution_of_scheduled_calls env
              (set_status env cid Scheduled NoDetails
                 (s\<lparr>tool_calls := (tool_calls s)[i := update_args (the payload) (tool_calls s ! i)]\<rparr>))"
      unfolding handle_confirmation_response_def Let_def
      by (simp only: fa option.case c' g if_True if_False)
    also have "the payload = p" using pl by simp
    finally show ?thesis
      using assms(1,3) by (simp add: set_status_scheduled_at [OF ft'])
  qed
  have r3: "handle_confirmation_response env cid outcome payload s =
          attempt_execution_of_scheduled_calls env
            (notify_tool_calls_update
              (s\<lparr>tool_calls := (tool_calls s)[i := ScheduledToolCall (request (tool_calls s ! i))
                     (existing_tool (tool_calls s ! i)) (existing_start_time (tool_calls s ! i))],
                 transitions := transitions s @ [(cid, AwaitingApproval, Scheduled)]\<rparr>))"
    if c: "\<not> (outcome = ''cancel'' \<or> aborted env (world s))"
      and m: "outcome \<in> {''proceed_once'', ''proceed_always'', ''proceed_always_server'', ''proceed_always_tool''}"
  proof -
    have "outcome \<noteq> ''modify_with_editor''" using m by auto
    then have g: "(outcome = ''modify_with_editor'' \<and> payload \<noteq> None \<and> payload \<noteq> Some Map.empty) = False"
      by simp
    have c': "(outcome = ''cancel'' \<or> aborted env (world s)) = False" using c by simp
    have m': "(outcome \<in> set [''proceed_once'', ''proceed_always'',
                               ''proceed_always_server'', ''proceed_always_tool'']) = True"
      using m by (simp only: list.set)
    have "handle_confirmation_response env cid outcome payload s =
            attempt_execution_of_scheduled_calls env (set_status env cid Scheduled NoDetails s)"
      unfolding handle_confirmation_response_def Let_def
      by (simp only: fa option.case c' g m' if_True if_False)
    then show ?thesis
      by (simp only: set_status_scheduled_at [OF ft] assms(3))
  qed
  show ?thesis
  proof (intro conjI impI, goal_cases)
    case A: 1
    then show ?case by (rule r1)
  next
    case B: 2
    show ?case
      by (rule r2 [OF B [THEN conjunct1] B [THEN conjunct2, THEN conjunct1]
                     B [THEN conjunct2, THEN conjunct2, THEN conjunct1]
                     B [THEN conjunct2, THEN conjunct2, THEN conjunct2]])
  next
    case C: 3
    show ?case by (rule r3 [OF C [THEN conjunct1] C [THEN conjunct2]])
  qed
qed

theorem confirmation_response_witness:
  "transitions (handle_confirmation_response demo_env ''c1'' ''cancel'' None waiting_scheduler) =
     [(''c1'', AwaitingApproval, Cancelled)]
   \<and> handle_confirmation_response demo_env ''c1'' ''modify_with_editor''
         (Some [''path'' \<mapsto> PStr ''b'']) waiting_scheduler =
       attempt_execution_of_scheduled_calls demo_env
         (notify_tool_calls_update
           (waiting_scheduler
              \<lparr>tool_calls := [ScheduledToolCall
                   ((demo_request ''c1'' ''delete_file'')\<lparr>args := [''path'' \<mapsto> PStr ''b'']\<rparr>)
                   (Some delete_tool) (Some 100)],
               transitions := [(''c1'', AwaitingApproval, Scheduled)]\<rparr>))
   \<and> transitions (handle_confirmation_response demo_env ''c1'' ''proceed_once'' None waiting_scheduler) =
     [(''c1'', AwaitingApproval, Scheduled), (''c1'', Scheduled, Executing), (''c1'', Executing, Success)]"
proof -
  have h: "0 < length (tool_calls waiting_scheduler)"
    "call_id (request (tool_calls waiting_scheduler ! 0)) = ''c1''"
    "status (tool_calls waiting_scheduler ! 0) = AwaitingApproval"
    "\<forall>k < 0. call_id (request (tool_calls waiting_scheduler ! k)) = ''c1'' \<longrightarrow>
        is_terminal (status (tool_calls waiting_scheduler ! k))"
    by (simp_all add: waiting_scheduler_def demo_scheduler_def init_scheduler_def demo_request_def)
  have ne: "[''path'' \<mapsto> PStr ''b''] \<noteq> Map.empty" by simp
  note t = confirmation_response [OF h]
  have a: "transitions (handle_confirmation_response demo_env ''c1'' ''cancel'' None waiting_scheduler) =
     [(''c1'', AwaitingApproval, Cancelled)]"
    using t [of "''cancel''" demo_env None Map.empty]
    by (simp add: waiting_scheduler_def sched_defs cancel_response_def)
  have b: "handle_confirmation_response demo_env ''c1'' ''modify_with_editor''
         (Some [''path'' \<mapsto> PStr ''b'']) waiting_scheduler =
       attempt_execution_of_scheduled_calls demo_env
         (notify_tool_calls_update
           (waiting_scheduler
              \<lparr>tool_calls := [ScheduledToolCall
                   ((demo_request ''c1'' ''delete_file'')\<lparr>args := [''path'' \<mapsto> PStr ''b'']\<rparr>)
                   (Some delete_tool) (Some 100)],
               transitions := [(''c1'', AwaitingApproval, Scheduled)]\<rparr>))"
    using t [of "''modify_with_editor''" demo_env "Some [''path'' \<mapsto> PStr ''b'']" "[''path'' \<mapsto> PStr ''b'']"] ne
    by (simp add: waiting_scheduler_def demo_scheduler_def init_scheduler_def demo_request_def demo_env_def)
  have c: "transitions (handle_confirmation_response demo_env ''c1'' ''proceed_once'' None waiting_scheduler) =
     [(''c1'', AwaitingApproval, Scheduled), (''c1'', Scheduled, Executing), (''c1'', Executing, Success)]"
    using t [of "''proceed_once''" demo_env None Map.empty]
    by (simp add: waiting_scheduler_def sched_defs)
  from a b c show ?thesis by (intro conjI)
qed


section \<open>Unregistering a tool\<close>

text \<open>
  Claim C9 at an MCP tool registered in an empty registry and then removed by
  \<open>_unregister_all_tools\<close>. The MCP registry forgets the tool, but the tool registry is
  left as it was after the registration: the tool is still found by name and still
  listed in the capability and tag indices. The registry does not return to its state
  before the registration.
\<close>

theorem unregister_leaves_tool_registered:
  "unregister_all_tools
     (fst (register_mcp_tool echo_tool {''EXTERNAL'', ''MCP''} ''srv'' ''echo'' (\<lparr>registered_tools = []\<rparr>, empty_registry)))
     (snd (register_mcp_tool echo_tool {''EXTERNAL'', ''MCP''} ''srv'' ''echo'' (\<lparr>registered_tools = []\<rparr>, empty_registry)))
   = (\<lparr>registered_tools = []\<rparr>,
      snd (register_mcp_tool echo_tool {''EXTERNAL'', ''MCP''} ''srv'' ''echo'' (\<lparr>registered_tools = []\<rparr>, empty_registry)))
   \<and> registry_get_tool
        (snd (register_mcp_tool echo_tool {''EXTERNAL'', ''MCP''} ''srv'' ''echo'' (\<lparr>registered_tools = []\<rparr>, empty_registry)))
        ''srv__echo'' = Some echo_tool
   \<and> capability_index
        (snd (register_mcp_tool echo_tool {''EXTERNAL'', ''MCP''} ''srv'' ''echo'' (\<lparr>registered_tools = []\<rparr>, empty_registry)))
        (Member EXTERNAL) = Some {''srv__echo''}
   \<and> tag_index
        (snd (register_mcp_tool echo_tool {''EXTERNAL'', ''MCP''} ''srv'' ''echo'' (\<lparr>registered_tools = []\<rparr>, empty_registry)))
        ''mcp'' = Some {''srv__echo''}
   \<and> registry_get_tool empty_registry ''srv__echo'' = None"
  by (simp add: unregister_all_tools_def unregister_one_def register_mcp_tool_def
      register_tool_def add_to_index_def registry_get_tool_def empty_registry_def
      tool_registry_unregister_tool_def echo_tool_def dict_set_def Let_def)


section \<open>Status transitions along sequences of operations\<close>

lemma set_status_cases:
  assumes "st \<noteq> Validating"
  shows "(find_target cid (tool_calls s) = None \<and>
            transitions (set_status env cid st d s) = transitions s \<and>
            (tool_calls (set_status env cid st d s) = tool_calls s \<or>
             tool_calls (set_status env cid st d s) = []))
       \<or> (\<exists>k tc'. find_target cid (tool_calls s) = Some k \<and> status tc' = st \<and>
            request tc' = request (tool_calls s ! k) \<and>
            transitions (set_status env cid st d s) =
              transitions s @ [(cid, status (tool_calls s ! k), st)] \<and>
            (tool_calls (set_status env cid st d s) = (tool_calls s)[k := tc'] \<or>
             tool_calls (set_status env cid st d s) = []))"
proof (cases "find_target cid (tool_calls s)")
  case None
  then show ?thesis
    by (simp add: set_status_miss check_tool_calls)
next
  case (Some k)
  from set_status_hit [OF Some assms, of env d] obtain tc' w' where
    n: "status tc' = st" "request tc' = request (tool_calls s ! k)"
       "set_status env cid st d s =
          check_and_notify_completion (notify_tool_calls_update
            (s\<lparr>tool_calls := (tool_calls s)[k := tc'], world := w',
               transitions := transitions s @ [(cid, status (tool_calls s ! k), st)]\<rparr>))"
    by blast
  have "transitions (set_status env cid st d s) =
          transitions s @ [(cid, status (tool_calls s ! k), st)]"
    by (simp add: n(3))
  moreover have "tool_calls (set_status env cid st d s) = (tool_calls s)[k := tc'] \<or>
                 tool_calls (set_status env cid st d s) = []"
    by (simp add: n(3) check_tool_calls)
  ultimately show ?thesis using Some n(1,2) by blast
qed

lemma nt_distinct_Nil [simp]: "nt_distinct []"
  by (simp add: nt_distinct_def)

lemma nt_distinct_update:
  assumes "nt_distinct cs" "k < length cs" "call_id (request tc') = call_id (request (cs ! k))"
    "\<not> is_terminal (status (cs ! k))"
  shows "nt_distinct (cs[k := tc'])"
  unfolding nt_distinct_def
proof (intro allI impI)
  fix i j
  assume i: "i < length (cs[k := tc'])" and j: "j < length (cs[k := tc'])"
    and h: "\<not> is_terminal (status (cs[k := tc'] ! i)) \<and> \<not> is_terminal (status (cs[k := tc'] ! j)) \<and>
            call_id (request (cs[k := tc'] ! i)) = call_id (request (cs[k := tc'] ! j))"
  have il: "i < length cs" and jl: "j < length cs" using i j by simp_all
  show "i = j"
  proof (cases "i = k")
    case ik: True
    show ?thesis
    proof (cases "j = k")
      case True
      with ik show ?thesis by simp
    next
      case False
      with h ik assms(2,3) have "\<not> is_terminal (status (cs ! j))"
        "call_id (request (cs ! k)) = call_id (request (cs ! j))" by simp_all
      with assms(1,2,4) jl have "k = j" unfolding nt_distinct_def by blast
      with False show ?thesis by simp
    qed
  next
    case ik: False
    show ?thesis
    proof (cases "j = k")
      case True
      with h ik assms(2,3) have "\<not> is_terminal (status (cs ! i))"
        "call_id (request (cs ! i)) = call_id (request (cs ! k))" by simp_all
      with assms(1,2,4) il have "i = k" unfolding nt_distinct_def by blast
      with ik show ?thesis by simp
    next
      case False
      with h ik have "\<not> is_terminal (status (cs ! i))" "\<not> is_terminal (status (cs ! j))"
        "call_id (request (cs ! i)) = call_id (request (cs ! j))" by simp_all
      with assms(1) il jl show ?thesis unfolding nt_distinct_def by blast
    qed
  qed
qed

lemma nt_distinct_target:
  assumes "nt_distinct cs" "j < length cs" "\<not> is_terminal (status (cs ! j))"
  shows "find_target (call_id (request (cs ! j))) cs = Some j"
proof (rule find_target_first)
  show "\<forall>i<j. call_id (request (cs ! i)) = call_id (request (cs ! j)) \<longrightarrow> is_terminal (status (cs ! i))"
  proof (intro allI impI)
    fix i assume i: "i < j" "call_id (request (cs ! i)) = call_id (request (cs ! j))"
    show "is_terminal (status (cs ! i))"
    proof (rule ccontr)
      assume "\<not> is_terminal (status (cs ! i))"
      with assms i have "i = j" unfolding nt_distinct_def
        by (metis less_trans)
      with i show False by simp
    qed
  qed
qed (use assms in auto)

lemma valid_trace_append [simp]:
  "valid_trace (xs @ ys) = (valid_trace xs \<and> valid_trace ys)"
  by (auto simp: valid_trace_def)

lemma valid_trace_Cons [simp]:
  "valid_trace ((x, a, b) # tr) = (\<not> is_terminal a \<and> scheduler_edge a b \<and> valid_trace tr)"
  by (simp add: valid_trace_def)

lemma valid_trace_Nil [simp]: "valid_trace []"
  by (simp add: valid_trace_def)

lemma exec_ok_Nil [simp]: "exec_ok []"
  by (simp add: exec_ok_def)

lemma execute_scheduled_call_inv:
  assumes j: "j < length (tool_calls s)" and sch: "status (tool_calls s ! j) = Scheduled"
    and ok: "exec_ok (tool_calls s)" and tr: "valid_trace (transitions s)"
  shows "valid_trace (transitions (execute_scheduled_call env (tool_calls s ! j) s)) \<and>
         (tool_calls (execute_scheduled_call env (tool_calls s ! j) s) = [] \<or>
          (\<exists>tc. is_terminal (status tc) \<and>
                call_id (request tc) = call_id (request (tool_calls s ! j)) \<and>
                tool_calls (execute_scheduled_call env (tool_calls s ! j) s) = (tool_calls s)[j := tc]))"
proof -
  let ?cs = "tool_calls s"
  let ?x = "call_id (request (?cs ! j))"
  let ?s1 = "set_status env ?x Executing NoDetails s"
  have nt: "\<not> is_terminal (status (?cs ! j))" using sch by simp
  have ft: "find_target ?x ?cs = Some j"
    by (rule nt_distinct_target) (use ok j nt in \<open>auto simp: exec_ok_def\<close>)
  from set_status_executing [OF ft, of env NoDetails] obtain tc1 where
    t1: "status tc1 = Executing" "request tc1 = request (?cs ! j)"
        "tool_calls ?s1 = ?cs[j := tc1]"
        "transitions ?s1 = transitions s @ [(?x, status (?cs ! j), Executing)]"
    by blast
  have ft1: "find_target ?x (tool_calls ?s1) = Some j"
    unfolding t1(3) by (rule find_target_update [OF ft]) (use t1 in auto)
  from execute_scheduled_call_shape [of env "?cs ! j" s] obtain b d' w' where
    e: "b = Success \<or> b = Error"
       "execute_scheduled_call env (?cs ! j) s = set_status env ?x b d' (?s1\<lparr>world := w'\<rparr>)"
    by blast
  let ?s1' = "?s1\<lparr>world := w'\<rparr>"
  have bv: "b \<noteq> Validating" using e(1) by auto
  have ft1': "find_target ?x (tool_calls ?s1') = Some j" using ft1 by simp
  from set_status_cases [OF bv, of ?x ?s1' env d'] ft1'
  obtain tc2 where
    t2: "status tc2 = b" "request tc2 = request (tool_calls ?s1' ! j)"
        "transitions (set_status env ?x b d' ?s1') =
           transitions ?s1' @ [(?x, status (tool_calls ?s1' ! j), b)]"
        "tool_calls (set_status env ?x b d' ?s1') = (tool_calls ?s1')[j := tc2] \<or>
         tool_calls (set_status env ?x b d' ?s1') = []"
    by auto
  have s1j: "tool_calls ?s1' ! j = tc1" using t1(3) j by simp
  have "transitions (set_status env ?x b d' ?s1') =
          transitions s @ [(?x, Scheduled, Executing), (?x, Executing, b)]"
    unfolding t2(3) s1j t1(1) using t1(4) sch by simp
  then have "transitions (execute_scheduled_call env (?cs ! j) s) =
          transitions s @ [(?x, Scheduled, Executing), (?x, Executing, b)]"
    using e(2) by simp
  then have "valid_trace (transitions (execute_scheduled_call env (?cs ! j) s))"
    using tr e(1) by (auto simp: scheduler_edge_def)
  moreover have "tool_calls (execute_scheduled_call env (?cs ! j) s) = [] \<or>
          (\<exists>tc. is_terminal (status tc) \<and> call_id (request tc) = ?x \<and>
                tool_calls (execute_scheduled_call env (?cs ! j) s) = ?cs[j := tc])"
  proof -
    have "is_terminal (status tc2)" using t2(1) e(1) by auto
    moreover have "call_id (request tc2) = ?x" using t2(2) s1j t1(2) by simp
    moreover have "(tool_calls ?s1')[j := tc2] = ?cs[j := tc2]" using t1(3) by simp
    ultimately show ?thesis using t2(4) e(2) by auto
  qed
  ultimately show ?thesis by blast
qed

lemma settled_Nil [simp]: "settled []"
  by (simp add: settled_def)

lemma exec_ok_update:
  assumes "exec_ok cs" "j < length cs" "\<not> is_terminal (status (cs ! j))"
    "call_id (request tc) = call_id (request (cs ! j))"
    "status tc \<noteq> Validating" "status tc \<noteq> Executing"
  shows "exec_ok (cs[j := tc])"
proof -
  have "nt_distinct (cs[j := tc])"
    by (rule nt_distinct_update) (use assms in \<open>auto simp: exec_ok_def\<close>)
  moreover have "\<forall>i < length (cs[j := tc]).
      status (cs[j := tc] ! i) \<noteq> Validating \<and> status (cs[j := tc] ! i) \<noteq> Executing"
  proof (intro allI impI)
    fix i assume "i < length (cs[j := tc])"
    then show "status (cs[j := tc] ! i) \<noteq> Validating \<and> status (cs[j := tc] ! i) \<noteq> Executing"
      using assms by (cases "i = j") (simp_all add: exec_ok_def)
  qed
  ultimately show ?thesis by (simp add: exec_ok_def)
qed

lemma execution_step_inv:
  assumes ok: "exec_ok (tool_calls s)" and tr: "valid_trace (transitions s)"
  shows "exec_ok (tool_calls (execution_step env s j)) \<and>
         valid_trace (transitions (execution_step env s j)) \<and>
         (tool_calls (execution_step env s j) = [] \<or>
           (length (tool_calls (execution_step env s j)) = length (tool_calls s) \<and>
            (j < length (tool_calls s) \<longrightarrow> status (tool_calls (execution_step env s j) ! j) \<noteq> Scheduled) \<and>
            (\<forall>i < length (tool_calls s). status (tool_calls s ! i) \<noteq> Scheduled \<longrightarrow>
                 status (tool_calls (execution_step env s j) ! i) \<noteq> Scheduled)))"
proof (cases "j < length (tool_calls s) \<and> status (tool_calls s ! j) = Scheduled")
  case False
  then have "execution_step env s j = s" by (auto simp: execution_step_def Let_def)
  with ok tr False show ?thesis by auto
next
  case True
  then have j: "j < length (tool_calls s)" and sch: "status (tool_calls s ! j) = Scheduled" by auto
  let ?s' = "execute_scheduled_call env (tool_calls s ! j) s"
  have eq: "execution_step env s j = ?s'" using True by (simp add: execution_step_def Let_def)
  from execute_scheduled_call_inv [OF j sch ok tr, of env]
  have v: "valid_trace (transitions ?s')"
    and c: "tool_calls ?s' = [] \<or>
          (\<exists>tc. is_terminal (status tc) \<and>
                call_id (request tc) = call_id (request (tool_calls s ! j)) \<and>
                tool_calls ?s' = (tool_calls s)[j := tc])"
    by blast+
  from c show ?thesis
  proof
    assume "tool_calls ?s' = []"
    with v eq show ?thesis by simp
  next
    assume "\<exists>tc. is_terminal (status tc) \<and>
                call_id (request tc) = call_id (request (tool_calls s ! j)) \<and>
                tool_calls ?s' = (tool_calls s)[j := tc]"
    then obtain tc where tc: "is_terminal (status tc)"
      "call_id (request tc) = call_id (request (tool_calls s ! j))"
      "tool_calls ?s' = (tool_calls s)[j := tc]" by blast
    have tcs: "status tc \<noteq> Validating" "status tc \<noteq> Executing" "status tc \<noteq> Scheduled"
      using tc(1) by auto
    have "exec_ok ((tool_calls s)[j := tc])"
      by (rule exec_ok_update) (use ok j sch tc tcs in auto)
    moreover have "\<forall>i < length (tool_calls s). status (tool_calls s ! i) \<noteq> Scheduled \<longrightarrow>
                 status ((tool_calls s)[j := tc] ! i) \<noteq> Scheduled"
    proof (intro allI impI)
      fix i assume "i < length (tool_calls s)" "status (tool_calls s ! i) \<noteq> Scheduled"
      then show "status ((tool_calls s)[j := tc] ! i) \<noteq> Scheduled"
        using tcs(3) by (cases "i = j") simp_all
    qed
    ultimately show ?thesis using v eq tc(3) tcs j by simp
  qed
qed

lemma execution_loop_inv:
  assumes ok: "exec_ok (tool_calls s)" and tr: "valid_trace (transitions s)"
  shows "exec_ok (tool_calls (foldl (execution_step env) s [0..<m])) \<and>
         valid_trace (transitions (foldl (execution_step env) s [0..<m])) \<and>
         (tool_calls (foldl (execution_step env) s [0..<m]) = [] \<or>
           (length (tool_calls (foldl (execution_step env) s [0..<m])) = length (tool_calls s) \<and>
            (\<forall>i < length (tool_calls s). i < m \<longrightarrow>
                 status (tool_calls (foldl (execution_step env) s [0..<m]) ! i) \<noteq> Scheduled)))"
proof (induction m)
  case 0
  with ok tr show ?case by simp
next
  case (Suc m)
  let ?t = "foldl (execution_step env) s [0..<m]"
  have f: "foldl (execution_step env) s [0..<Suc m] = execution_step env ?t m" by simp
  from Suc.IH have ok': "exec_ok (tool_calls ?t)" and tr': "valid_trace (transitions ?t)"
    and l: "tool_calls ?t = [] \<or>
           (length (tool_calls ?t) = length (tool_calls s) \<and>
            (\<forall>i < length (tool_calls s). i < m \<longrightarrow> status (tool_calls ?t ! i) \<noteq> Scheduled))"
    by blast+
  note st = execution_step_inv [OF ok' tr', of env m]
  show ?case
  proof (cases "tool_calls (execution_step env ?t m) = []")
    case True
    with st show ?thesis unfolding f by simp
  next
    case False
    with st have len: "length (tool_calls (execution_step env ?t m)) = length (tool_calls ?t)"
      and a: "m < length (tool_calls ?t) \<longrightarrow> status (tool_calls (execution_step env ?t m) ! m) \<noteq> Scheduled"
      and b: "\<forall>i < length (tool_calls ?t). status (tool_calls ?t ! i) \<noteq> Scheduled \<longrightarrow>
                 status (tool_calls (execution_step env ?t m) ! i) \<noteq> Scheduled"
      by blast+
    from False len have ne: "tool_calls ?t \<noteq> []" by auto
    with l have len': "length (tool_calls ?t) = length (tool_calls s)"
      and c: "\<forall>i < length (tool_calls s). i < m \<longrightarrow> status (tool_calls ?t ! i) \<noteq> Scheduled"
      by blast+
    have "\<forall>i < length (tool_calls s). i < Suc m \<longrightarrow>
            status (tool_calls (execution_step env ?t m) ! i) \<noteq> Scheduled"
    proof (intro allI impI)
      fix i assume i: "i < length (tool_calls s)" "i < Suc m"
      show "status (tool_calls (execution_step env ?t m) ! i) \<noteq> Scheduled"
      proof (cases "i = m")
        case True
        with a i len' show ?thesis by simp
      next
        case False
        with i have "i < m" by simp
        with c i have "status (tool_calls ?t ! i) \<noteq> Scheduled" by simp
        with b i len' show ?thesis by simp
      qed
    qed
    with st len len' show ?thesis unfolding f by simp
  qed
qed

lemma attempt_execution_inv:
  assumes ok: "exec_ok (tool_calls s)" and tr: "valid_trace (transitions s)"
  shows "settled (tool_calls (attempt_execution_of_scheduled_calls env s)) \<and>
         nt_distinct (tool_calls (attempt_execution_of_scheduled_calls env s)) \<and>
         valid_trace (transitions (attempt_execution_of_scheduled_calls env s))"
proof -
  let ?t = "foldl (execution_step env) s [0..<length (tool_calls s)]"
  from execution_loop_inv [OF ok tr, of env "length (tool_calls s)"]
  have ok': "exec_ok (tool_calls ?t)" and tr': "valid_trace (transitions ?t)"
    and l: "tool_calls ?t = [] \<or>
           (length (tool_calls ?t) = length (tool_calls s) \<and>
            (\<forall>i < length (tool_calls s). status (tool_calls ?t ! i) \<noteq> Scheduled))"
    by auto
  have "settled (tool_calls ?t)"
    unfolding settled_def
  proof (intro allI impI)
    fix j assume j: "j < length (tool_calls ?t)"
    with l have "status (tool_calls ?t ! j) \<noteq> Scheduled" by auto
    moreover from ok' j have "status (tool_calls ?t ! j) \<noteq> Validating"
      "status (tool_calls ?t ! j) \<noteq> Executing" by (auto simp: exec_ok_def)
    ultimately show "is_terminal (status (tool_calls ?t ! j)) \<or> status (tool_calls ?t ! j) = AwaitingApproval"
      by (cases "status (tool_calls ?t ! j)") auto
  qed
  with ok' tr' show ?thesis
    by (simp add: attempt_execution_of_scheduled_calls_def exec_ok_def)
qed

lemma validate_calls_step:
  assumes "status tc = Validating"
  shows "\<exists>b d' w'. (b = Error \<or> b = AwaitingApproval \<or> b = Scheduled) \<and>
           validate_calls env (tc # tcs) s =
             validate_calls env tcs (set_status env (call_id (request tc)) b d' (s\<lparr>world := w'\<rparr>))"
proof (cases "existing_tool tc")
  case None
  have "validate_calls env (tc # tcs) s =
          validate_calls env tcs
            (set_status env (call_id (request tc)) Error
               (ResponseD (validation_error_response (request tc)
                  (attribute_error ''should_confirm_execute''))) (s\<lparr>world := world s\<rparr>))"
    using None assms by (simp add: Let_def)
  then show ?thesis by blast
next
  case (Some t)
  obtain res w where r: "should_confirm_execute t (args (request tc)) (world s) = (res, w)"
    by (cases "should_confirm_execute t (args (request tc)) (world s)")
  show ?thesis
  proof (cases res)
    case (Inl e)
    have "validate_calls env (tc # tcs) s =
            validate_calls env tcs
              (set_status env (call_id (request tc)) Error
                 (ResponseD (validation_error_response (request tc) e)) (s\<lparr>world := w\<rparr>))"
      using Some assms r Inl by (simp add: Let_def)
    then show ?thesis by blast
  next
    case (Inr cd)
    show ?thesis
    proof (cases cd)
      case None
      have "validate_calls env (tc # tcs) s =
              validate_calls env tcs
                (set_status env (call_id (request tc)) Scheduled NoDetails (s\<lparr>world := w\<rparr>))"
        using Some assms r Inr None by (simp add: Let_def)
      then show ?thesis by blast
    next
      case (Some c)
      have "validate_calls env (tc # tcs) s =
              validate_calls env tcs
                (set_status env (call_id (request tc)) AwaitingApproval (ConfirmationD c)
                   (s\<lparr>world := w\<rparr>))"
        using \<open>existing_tool tc = Some t\<close> assms r Inr Some by (simp add: Let_def)
      then show ?thesis by blast
    qed
  qed
qed

lemma val_ok_Nil_calls [simp]: "distinct (map (\<lambda>c. call_id (request c)) rest) \<Longrightarrow> val_ok rest []"
  by (simp add: val_ok_def)

lemma val_ok_skip:
  "val_ok (tc # tcs) cs \<Longrightarrow> status tc \<noteq> Validating \<Longrightarrow> val_ok tcs cs"
  unfolding val_ok_def by (simp; blast)

lemma val_ok_exec_ok: "val_ok [] cs \<Longrightarrow> exec_ok cs"
  by (auto simp: val_ok_def exec_ok_def)

lemma val_ok_miss:
  assumes v: "val_ok (tc # tcs) cs" and m: "find_target (call_id (request tc)) cs = None"
  shows "val_ok tcs cs"
proof -
  have nx: "\<forall>j < length cs. call_id (request (cs ! j)) = call_id (request tc) \<longrightarrow>
              is_terminal (status (cs ! j))"
    using find_target_None [OF m] by (simp add: nth_mem)
  have a: "\<forall>j < length cs. status (cs ! j) = Validating \<longrightarrow>
          (\<exists>c \<in> set tcs. status c = Validating \<and> call_id (request c) = call_id (request (cs ! j)))"
  proof (intro allI impI)
    fix j assume j: "j < length cs" "status (cs ! j) = Validating"
    with v obtain c where c: "c \<in> set (tc # tcs)" "status c = Validating"
      "call_id (request c) = call_id (request (cs ! j))"
      unfolding val_ok_def by blast
    have "c \<noteq> tc"
    proof
      assume "c = tc"
      with c have "call_id (request (cs ! j)) = call_id (request tc)" by simp
      with nx j(1) have "is_terminal (status (cs ! j))" by blast
      with j show False by simp
    qed
    with c show "\<exists>c \<in> set tcs. status c = Validating \<and> call_id (request c) = call_id (request (cs ! j))"
      by auto
  qed
  show ?thesis
    using v a unfolding val_ok_def by (simp; blast)
qed

lemma val_ok_hit:
  assumes v: "val_ok (tc # tcs) cs" and h: "find_target (call_id (request tc)) cs = Some k"
    and tc': "request tc' = request (cs ! k)" "status tc' \<noteq> Validating" "status tc' \<noteq> Executing"
  shows "val_ok tcs (cs[k := tc']) \<and> status (cs ! k) = Validating"
proof -
  from find_target_Some [OF h] have k: "k < length cs"
    "call_id (request (cs ! k)) = call_id (request tc)" "\<not> is_terminal (status (cs ! k))"
    by auto
  from v have d: "distinct (map (\<lambda>c. call_id (request c)) (tc # tcs))" and nd: "nt_distinct cs"
    and ne: "\<forall>j < length cs. status (cs ! j) \<noteq> Executing"
    and v1: "\<forall>j < length cs. status (cs ! j) = Validating \<longrightarrow>
          (\<exists>c \<in> set (tc # tcs). status c = Validating \<and> call_id (request c) = call_id (request (cs ! j)))"
    and v2: "\<forall>j < length cs. \<not> is_terminal (status (cs ! j)) \<and>
          (\<exists>c \<in> set (tc # tcs). call_id (request c) = call_id (request (cs ! j))) \<longrightarrow>
          status (cs ! j) = Validating"
    unfolding val_ok_def by blast+
  have sk: "status (cs ! k) = Validating"
    using v2 k by auto
  have notin: "\<forall>c \<in> set tcs. call_id (request c) \<noteq> call_id (request tc)"
    using d by (auto simp: image_iff)
  have 1: "distinct (map (\<lambda>c. call_id (request c)) tcs)" using d by simp
  have 2: "nt_distinct (cs[k := tc'])"
    by (rule nt_distinct_update [OF nd k(1)]) (use tc' k in auto)
  have 3: "\<forall>j < length (cs[k := tc']). status (cs[k := tc'] ! j) \<noteq> Executing"
  proof (intro allI impI)
    fix j assume "j < length (cs[k := tc'])"
    then show "status (cs[k := tc'] ! j) \<noteq> Executing"
      using ne tc'(3) by (cases "j = k") simp_all
  qed
  have 4: "\<forall>j < length (cs[k := tc']). status (cs[k := tc'] ! j) = Validating \<longrightarrow>
          (\<exists>c \<in> set tcs. status c = Validating \<and>
             call_id (request c) = call_id (request (cs[k := tc'] ! j)))"
  proof (intro allI impI)
    fix j assume j: "j < length (cs[k := tc'])" "status (cs[k := tc'] ! j) = Validating"
    have jk: "j \<noteq> k" using j tc'(2) k(1) by auto
    with j have j': "j < length cs" "status (cs ! j) = Validating" by simp_all
    with v1 obtain c where c: "c \<in> set (tc # tcs)" "status c = Validating"
      "call_id (request c) = call_id (request (cs ! j))" by blast
    have "c \<noteq> tc"
    proof
      assume "c = tc"
      with c k have "call_id (request (cs ! j)) = call_id (request (cs ! k))" by simp
      moreover have "\<not> is_terminal (status (cs ! j))" using j' by simp
      ultimately have "j = k" using nd j'(1) k(1,3) unfolding nt_distinct_def by blast
      with jk show False by simp
    qed
    with c jk show "\<exists>c \<in> set tcs. status c = Validating \<and>
             call_id (request c) = call_id (request (cs[k := tc'] ! j))"
      by auto
  qed
  have 5: "\<forall>j < length (cs[k := tc']). \<not> is_terminal (status (cs[k := tc'] ! j)) \<and>
          (\<exists>c \<in> set tcs. call_id (request c) = call_id (request (cs[k := tc'] ! j))) \<longrightarrow>
          status (cs[k := tc'] ! j) = Validating"
  proof (intro allI impI)
    fix j assume j: "j < length (cs[k := tc'])"
      and a: "\<not> is_terminal (status (cs[k := tc'] ! j)) \<and>
          (\<exists>c \<in> set tcs. call_id (request c) = call_id (request (cs[k := tc'] ! j)))"
    show "status (cs[k := tc'] ! j) = Validating"
    proof (cases "j = k")
      case True
      with a k(1) tc'(1) k(2) have "\<exists>c \<in> set tcs. call_id (request c) = call_id (request tc)"
        by simp
      with notin show ?thesis by blast
    next
      case False
      with j a have "j < length cs" "\<not> is_terminal (status (cs ! j))"
        "\<exists>c \<in> set (tc # tcs). call_id (request c) = call_id (request (cs ! j))"
        by auto
      with v2 False show ?thesis by simp
    qed
  qed
  from 1 2 3 4 5 sk show ?thesis unfolding val_ok_def by blast
qed

lemma val_ok_set_status:
  assumes v: "val_ok (tc # tcs) (tool_calls s)" and tr: "valid_trace (transitions s)"
    and b: "b = Error \<or> b = AwaitingApproval \<or> b = Scheduled"
  shows "val_ok tcs (tool_calls (set_status env (call_id (request tc)) b d s)) \<and>
         valid_trace (transitions (set_status env (call_id (request tc)) b d s))"
proof -
  let ?x = "call_id (request tc)"
  let ?s' = "set_status env ?x b d s"
  have bv: "b \<noteq> Validating" using b by auto
  have d: "distinct (map (\<lambda>c. call_id (request c)) tcs)" using v by (simp add: val_ok_def)
  from set_status_cases [OF bv, of ?x s env d]
  show ?thesis
  proof
    assume m: "find_target ?x (tool_calls s) = None \<and> transitions ?s' = transitions s \<and>
            (tool_calls ?s' = tool_calls s \<or> tool_calls ?s' = [])"
    then have "val_ok tcs (tool_calls s)" using val_ok_miss [OF v] by blast
    with m d tr show ?thesis by auto
  next
    assume "\<exists>k tc'. find_target ?x (tool_calls s) = Some k \<and> status tc' = b \<and>
            request tc' = request (tool_calls s ! k) \<and>
            transitions ?s' = transitions s @ [(?x, status (tool_calls s ! k), b)] \<and>
            (tool_calls ?s' = (tool_calls s)[k := tc'] \<or> tool_calls ?s' = [])"
    then obtain k tc' where h: "find_target ?x (tool_calls s) = Some k" "status tc' = b"
      "request tc' = request (tool_calls s ! k)"
      "transitions ?s' = transitions s @ [(?x, status (tool_calls s ! k), b)]"
      "tool_calls ?s' = (tool_calls s)[k := tc'] \<or> tool_calls ?s' = []"
      by blast
    have "status tc' \<noteq> Validating" "status tc' \<noteq> Executing" using h(2) b by auto
    from val_ok_hit [OF v h(1) h(3) this]
    have vk: "val_ok tcs ((tool_calls s)[k := tc'])" and sk: "status (tool_calls s ! k) = Validating"
      by blast+
    have "valid_trace (transitions ?s')"
      using h(4) sk tr b by (auto simp: scheduler_edge_def)
    moreover have "val_ok tcs (tool_calls ?s')" using h(5) vk d by auto
    ultimately show ?thesis by blast
  qed
qed

lemma validate_calls_inv:
  "val_ok rest (tool_calls s) \<Longrightarrow> valid_trace (transitions s) \<Longrightarrow>
   exec_ok (tool_calls (validate_calls env rest s)) \<and>
   valid_trace (transitions (validate_calls env rest s))"
proof (induction rest arbitrary: s)
  case Nil
  then show ?case by (simp add: val_ok_exec_ok)
next
  case (Cons tc tcs)
  show ?case
  proof (cases "status tc = Validating")
    case False
    then have "validate_calls env (tc # tcs) s = validate_calls env tcs s" by simp
    moreover have "val_ok tcs (tool_calls s)" using val_ok_skip [OF Cons.prems(1) False] .
    ultimately show ?thesis using Cons.IH [of s] Cons.prems(2) by simp
  next
    case True
    from validate_calls_step [OF True, of env tcs s] obtain b d' w' where
      b: "b = Error \<or> b = AwaitingApproval \<or> b = Scheduled"
      and e: "validate_calls env (tc # tcs) s =
             validate_calls env tcs (set_status env (call_id (request tc)) b d' (s\<lparr>world := w'\<rparr>))"
      by blast
    let ?s0 = "s\<lparr>world := w'\<rparr>"
    have "val_ok (tc # tcs) (tool_calls ?s0)" "valid_trace (transitions ?s0)"
      using Cons.prems by simp_all
    from val_ok_set_status [OF this b, of env d']
    have "val_ok tcs (tool_calls (set_status env (call_id (request tc)) b d' ?s0))"
      "valid_trace (transitions (set_status env (call_id (request tc)) b d' ?s0))"
      by blast+
    from Cons.IH [OF this] e show ?thesis by simp
  qed
qed

lemma create_calls_props:
  "create_calls env reqs w = (cs, w') \<Longrightarrow>
     map (\<lambda>c. call_id (request c)) cs = map call_id reqs \<and>
     (\<forall>c \<in> set cs. status c = Error \<or> status c = Validating)"
proof (induction reqs arbitrary: w cs w')
  case Nil
  then show ?case by simp
next
  case (Cons r rs)
  show ?case
  proof (cases "get_tool env (name r)")
    case None
    obtain cs1 w1 where c: "create_calls env rs w = (cs1, w1)"
      by (cases "create_calls env rs w")
    with Cons.prems None have
      "cs = ErroredToolCall r (ResponseD (not_found_response r)) (Some 0) # cs1" by simp
    with Cons.IH [OF c] show ?thesis by simp
  next
    case (Some t)
    obtain now w1 where t: "time_time env w = (now, w1)" by (cases "time_time env w")
    obtain cs1 w2 where c: "create_calls env rs w1 = (cs1, w2)"
      by (cases "create_calls env rs w1")
    with Cons.prems Some t have "cs = ValidatingToolCall r (Some t) (Some now) # cs1" by simp
    with Cons.IH [OF c] show ?thesis by simp
  qed
qed

lemma settled_not_running_terminal:
  assumes "settled cs" "\<not> list_ex (\<lambda>c. status c \<in> set [Executing, AwaitingApproval]) cs"
  shows "\<forall>j < length cs. is_terminal (status (cs ! j))"
proof (intro allI impI)
  fix j assume j: "j < length cs"
  with assms(2) have "status (cs ! j) \<noteq> AwaitingApproval"
    by (auto simp: list_ex_iff)
  with assms(1) j show "is_terminal (status (cs ! j))" by (auto simp: settled_def)
qed

lemma val_ok_new_batch:
  assumes old: "\<forall>j < length old. is_terminal (status (old ! j))"
    and ids: "distinct (map (\<lambda>c. call_id (request c)) new)"
    and st: "\<forall>c \<in> set new. status c = Error \<or> status c = Validating"
  shows "val_ok new (old @ new)"
proof -
  have nt: "\<And>j. j < length (old @ new) \<Longrightarrow> \<not> is_terminal (status ((old @ new) ! j)) \<Longrightarrow>
          length old \<le> j \<and> (old @ new) ! j = new ! (j - length old) \<and> j - length old < length new"
  proof -
    fix j assume j: "j < length (old @ new)" "\<not> is_terminal (status ((old @ new) ! j))"
    have "\<not> j < length old"
    proof
      assume "j < length old"
      with old j show False by (simp add: nth_append)
    qed
    with j show "length old \<le> j \<and> (old @ new) ! j = new ! (j - length old) \<and> j - length old < length new"
      by (auto simp: nth_append)
  qed
  have 2: "nt_distinct (old @ new)"
    unfolding nt_distinct_def
  proof (intro allI impI)
    fix i j assume i: "i < length (old @ new)" and j: "j < length (old @ new)"
      and h: "\<not> is_terminal (status ((old @ new) ! i)) \<and> \<not> is_terminal (status ((old @ new) ! j)) \<and>
          call_id (request ((old @ new) ! i)) = call_id (request ((old @ new) ! j))"
    from nt [OF i] h have a: "length old \<le> i" "(old @ new) ! i = new ! (i - length old)"
      "i - length old < length new" by auto
    from nt [OF j] h have b: "length old \<le> j" "(old @ new) ! j = new ! (j - length old)"
      "j - length old < length new" by auto
    have "i - length old = j - length old"
      using nth_eq_iff_index_eq [OF ids, of "i - length old" "j - length old"] a(2,3) b(2,3) h
      by simp
    with a(1) b(1) show "i = j" by simp
  qed
  have 3: "\<forall>j < length (old @ new). status ((old @ new) ! j) \<noteq> Executing"
  proof (intro allI impI)
    fix j assume j: "j < length (old @ new)"
    show "status ((old @ new) ! j) \<noteq> Executing"
    proof (cases "is_terminal (status ((old @ new) ! j))")
      case True
      then show ?thesis by auto
    next
      case False
      from nt [OF j False] have "(old @ new) ! j \<in> set new" by (metis nth_mem)
      with st have "status ((old @ new) ! j) = Error \<or> status ((old @ new) ! j) = Validating"
        by blast
      then show ?thesis by auto
    qed
  qed
  have 4: "\<forall>j < length (old @ new). status ((old @ new) ! j) = Validating \<longrightarrow>
          (\<exists>c \<in> set new. status c = Validating \<and>
             call_id (request c) = call_id (request ((old @ new) ! j)))"
  proof (intro allI impI)
    fix j assume j: "j < length (old @ new)" "status ((old @ new) ! j) = Validating"
    then have "\<not> is_terminal (status ((old @ new) ! j))" by simp
    from nt [OF j(1) this] j(2) show "\<exists>c \<in> set new. status c = Validating \<and>
             call_id (request c) = call_id (request ((old @ new) ! j))"
      by (metis nth_mem)
  qed
  have 5: "\<forall>j < length (old @ new). \<not> is_terminal (status ((old @ new) ! j)) \<and>
          (\<exists>c \<in> set new. call_id (request c) = call_id (request ((old @ new) ! j))) \<longrightarrow>
          status ((old @ new) ! j) = Validating"
  proof (intro allI impI)
    fix j assume j: "j < length (old @ new)"
      and a: "\<not> is_terminal (status ((old @ new) ! j)) \<and>
          (\<exists>c \<in> set new. call_id (request c) = call_id (request ((old @ new) ! j)))"
    from nt [OF j] a have m: "(old @ new) ! j \<in> set new" by (metis nth_mem)
    with st have "status ((old @ new) ! j) = Error \<or> status ((old @ new) ! j) = Validating" by blast
    with a show "status ((old @ new) ! j) = Validating" by auto
  qed
  from ids 2 3 4 5 show ?thesis unfolding val_ok_def by blast
qed

lemma schedule_inv:
  assumes s: "settled (tool_calls s)" and tr: "valid_trace (transitions s)"
    and nd: "nt_distinct (tool_calls s)"
    and ids: "distinct (map call_id requests)"
  shows "settled (tool_calls (snd (schedule env requests s))) \<and>
         nt_distinct (tool_calls (snd (schedule env requests s))) \<and>
         valid_trace (transitions (snd (schedule env requests s)))"
proof (cases "is_running s")
  case True
  then have "snd (schedule env requests s) = s" by (simp add: schedule_def)
  with s tr nd show ?thesis by simp
next
  case False
  obtain new w where c: "create_calls env requests (world s) = (new, w)"
    by (cases "create_calls env requests (world s)")
  let ?s2 = "notify_tool_calls_update (s\<lparr>tool_calls := tool_calls s @ new, world := w\<rparr>)"
  let ?s3 = "validate_calls env new ?s2"
  have e: "snd (schedule env requests s) = attempt_execution_of_scheduled_calls env ?s3"
    using False c by (simp add: schedule_def Let_def)
  from create_calls_props [OF c] ids
  have n1: "distinct (map (\<lambda>c. call_id (request c)) new)"
    and n2: "\<forall>c \<in> set new. status c = Error \<or> status c = Validating"
    by auto
  have old: "\<forall>j < length (tool_calls s). is_terminal (status (tool_calls s ! j))"
    by (rule settled_not_running_terminal [OF s]) (use False in \<open>simp add: is_running_def\<close>)
  have "val_ok new (tool_calls ?s2)" using val_ok_new_batch [OF old n1 n2] by simp
  moreover have "valid_trace (transitions ?s2)" using tr by simp
  ultimately have "exec_ok (tool_calls ?s3)" "valid_trace (transitions ?s3)"
    using validate_calls_inv [of new ?s2 env] by blast+
  from attempt_execution_inv [OF this, of env] e show ?thesis by simp
qed

lemma find_awaiting_Some:
  "find_awaiting cid cs = Some i \<Longrightarrow>
     i < length cs \<and> call_id (request (cs ! i)) = cid \<and> status (cs ! i) = AwaitingApproval"
proof (induction cs arbitrary: i)
  case Nil
  then show ?case by simp
next
  case (Cons c cs)
  show ?case
  proof (cases "call_id (request c) = cid \<and> status c = AwaitingApproval")
    case True
    with Cons.prems show ?thesis by auto
  next
    case False
    with Cons.prems obtain i' where i: "i = Suc i'" "find_awaiting cid cs = Some i'"
      by auto
    from Cons.IH [OF i(2)] i(1) show ?thesis by simp
  qed
qed

lemma handle_confirmation_shape:
  "handle_confirmation_response env cid outcome payload s = s \<or>
   (\<exists>i s1. find_awaiting cid (tool_calls s) = Some i \<and>
      handle_confirmation_response env cid outcome payload s =
        attempt_execution_of_scheduled_calls env s1 \<and>
      (s1 = s \<or>
       (\<exists>b d s0. (b = Cancelled \<or> b = Scheduled) \<and> s1 = set_status env cid b d s0 \<and>
          transitions s0 = transitions s \<and>
          (tool_calls s0 = tool_calls s \<or>
           (\<exists>p. tool_calls s0 = (tool_calls s)[i := update_args p (tool_calls s ! i)])))))"
proof (cases "find_awaiting cid (tool_calls s)")
  case None
  then show ?thesis by (simp add: handle_confirmation_response_def)
next
  case (Some i)
  let ?A = "outcome = ''cancel'' \<or> aborted env (world s)"
  let ?B = "outcome = ''modify_with_editor'' \<and> payload \<noteq> None \<and> payload \<noteq> Some Map.empty"
  let ?C = "outcome \<in> set [''proceed_once'', ''proceed_always'',
                              ''proceed_always_server'', ''proceed_always_tool'']"
  let ?s0 = "s\<lparr>tool_calls := (tool_calls s)[i := update_args (the payload) (tool_calls s ! i)]\<rparr>"
  have "\<exists>s1. handle_confirmation_response env cid outcome payload s =
        attempt_execution_of_scheduled_calls env s1 \<and>
      (s1 = s \<or>
       (\<exists>b d s0. (b = Cancelled \<or> b = Scheduled) \<and> s1 = set_status env cid b d s0 \<and>
          transitions s0 = transitions s \<and>
          (tool_calls s0 = tool_calls s \<or>
           (\<exists>p. tool_calls s0 = (tool_calls s)[i := update_args p (tool_calls s ! i)]))))"
  proof (cases ?A)
    case True
    then have a: "?A = True" by simp
    have "handle_confirmation_response env cid outcome payload s =
            attempt_execution_of_scheduled_calls env
              (set_status env cid Cancelled (ResponseD (cancel_response cid)) s)"
      unfolding handle_confirmation_response_def Let_def
      by (simp only: Some option.case a if_True)
    then show ?thesis by blast
  next
    case False
    then have a: "?A = False" by simp
    show ?thesis
    proof (cases ?B)
      case True
      then have b: "?B = True" by simp
      have "handle_confirmation_response env cid outcome payload s =
              attempt_execution_of_scheduled_calls env (set_status env cid Scheduled NoDetails ?s0)"
        unfolding handle_confirmation_response_def Let_def
        by (simp only: Some option.case a b if_True if_False)
      moreover have "transitions ?s0 = transitions s" by simp
      moreover have "tool_calls ?s0 = (tool_calls s)[i := update_args (the payload) (tool_calls s ! i)]"
        by simp
      ultimately show ?thesis by blast
    next
      case False
      then have b: "?B = False" by simp
      show ?thesis
      proof (cases ?C)
        case True
        then have c: "?C = True" by simp
        have "handle_confirmation_response env cid outcome payload s =
                attempt_execution_of_scheduled_calls env (set_status env cid Scheduled NoDetails s)"
          unfolding handle_confirmation_response_def Let_def
          by (simp only: Some option.case a b c if_True if_False)
        then show ?thesis by blast
      next
        case False
        then have c: "?C = False" by simp
        have "handle_confirmation_response env cid outcome payload s =
                attempt_execution_of_scheduled_calls env s"
          unfolding handle_confirmation_response_def Let_def
          by (simp only: Some option.case a b c if_True if_False)
        then show ?thesis by blast
      qed
    qed
  qed
  with Some show ?thesis by blast
qed

lemma settled_exec_ok: "settled cs \<Longrightarrow> nt_distinct cs \<Longrightarrow> exec_ok cs"
  unfolding settled_def exec_ok_def by auto

lemma exec_ok_update_args:
  assumes "exec_ok cs" "i < length cs"
  shows "exec_ok (cs[i := update_args p (cs ! i)])"
proof -
  have "nt_distinct (cs[i := update_args p (cs ! i)])"
    unfolding nt_distinct_def
  proof (intro allI impI)
    fix a b
    assume a: "a < length (cs[i := update_args p (cs ! i)])"
      and b: "b < length (cs[i := update_args p (cs ! i)])"
      and h: "\<not> is_terminal (status (cs[i := update_args p (cs ! i)] ! a)) \<and>
              \<not> is_terminal (status (cs[i := update_args p (cs ! i)] ! b)) \<and>
              call_id (request (cs[i := update_args p (cs ! i)] ! a)) =
              call_id (request (cs[i := update_args p (cs ! i)] ! b))"
    have sa: "status (cs[i := update_args p (cs ! i)] ! a) = status (cs ! a)"
      "call_id (request (cs[i := update_args p (cs ! i)] ! a)) = call_id (request (cs ! a))"
      using a by (cases "a = i"; simp)+
    have sb: "status (cs[i := update_args p (cs ! i)] ! b) = status (cs ! b)"
      "call_id (request (cs[i := update_args p (cs ! i)] ! b)) = call_id (request (cs ! b))"
      using b by (cases "b = i"; simp)+
    from h sa sb a b assms(1) show "a = b"
      unfolding exec_ok_def nt_distinct_def by simp
  qed
  moreover have "\<forall>j < length (cs[i := update_args p (cs ! i)]).
      status (cs[i := update_args p (cs ! i)] ! j) \<noteq> Validating \<and>
      status (cs[i := update_args p (cs ! i)] ! j) \<noteq> Executing"
  proof (intro allI impI)
    fix j assume "j < length (cs[i := update_args p (cs ! i)])"
    then show "status (cs[i := update_args p (cs ! i)] ! j) \<noteq> Validating \<and>
      status (cs[i := update_args p (cs ! i)] ! j) \<noteq> Executing"
      using assms by (cases "j = i") (simp_all add: exec_ok_def)
  qed
  ultimately show ?thesis by (simp add: exec_ok_def)
qed

lemma confirm_set_status_inv:
  assumes ok: "exec_ok (tool_calls s0)" and tr: "valid_trace (transitions s0)"
    and i: "i < length (tool_calls s0)" "call_id (request (tool_calls s0 ! i)) = cid"
      "status (tool_calls s0 ! i) = AwaitingApproval"
    and b: "b = Cancelled \<or> b = Scheduled"
  shows "exec_ok (tool_calls (set_status env cid b d s0)) \<and>
         valid_trace (transitions (set_status env cid b d s0))"
proof -
  have nt: "\<not> is_terminal (status (tool_calls s0 ! i))" using i(3) by simp
  have ft: "find_target cid (tool_calls s0) = Some i"
    using nt_distinct_target [of "tool_calls s0" i] ok i nt by (simp add: exec_ok_def)
  have bv: "b \<noteq> Validating" using b by auto
  from set_status_cases [OF bv, of cid s0 env d] ft
  obtain tc' where h: "status tc' = b" "request tc' = request (tool_calls s0 ! i)"
      "transitions (set_status env cid b d s0) =
         transitions s0 @ [(cid, status (tool_calls s0 ! i), b)]"
      "tool_calls (set_status env cid b d s0) = (tool_calls s0)[i := tc'] \<or>
       tool_calls (set_status env cid b d s0) = []"
    by auto
  have "valid_trace (transitions (set_status env cid b d s0))"
    using h(3) i(3) tr b by (auto simp: scheduler_edge_def)
  moreover have "exec_ok ((tool_calls s0)[i := tc'])"
    by (rule exec_ok_update [OF ok i(1) nt]) (use h b in auto)
  ultimately show ?thesis using h(4) by auto
qed

lemma confirm_inv:
  assumes s: "settled (tool_calls s)" and tr: "valid_trace (transitions s)"
    and nd: "nt_distinct (tool_calls s)"
  shows "settled (tool_calls (handle_confirmation_response env cid outcome payload s)) \<and>
         nt_distinct (tool_calls (handle_confirmation_response env cid outcome payload s)) \<and>
         valid_trace (transitions (handle_confirmation_response env cid outcome payload s))"
proof -
  let ?h = "handle_confirmation_response env cid outcome payload s"
  have ok: "exec_ok (tool_calls s)" using settled_exec_ok [OF s nd] .
  from handle_confirmation_shape [of env cid outcome payload s]
  show ?thesis
  proof
    assume "?h = s"
    with s tr nd show ?thesis by simp
  next
    assume "\<exists>i s1. find_awaiting cid (tool_calls s) = Some i \<and>
      ?h = attempt_execution_of_scheduled_calls env s1 \<and>
      (s1 = s \<or>
       (\<exists>b d s0. (b = Cancelled \<or> b = Scheduled) \<and> s1 = set_status env cid b d s0 \<and>
          transitions s0 = transitions s \<and>
          (tool_calls s0 = tool_calls s \<or>
           (\<exists>p. tool_calls s0 = (tool_calls s)[i := update_args p (tool_calls s ! i)]))))"
    then obtain i s1 where fa: "find_awaiting cid (tool_calls s) = Some i"
      and e: "?h = attempt_execution_of_scheduled_calls env s1"
      and c: "s1 = s \<or>
       (\<exists>b d s0. (b = Cancelled \<or> b = Scheduled) \<and> s1 = set_status env cid b d s0 \<and>
          transitions s0 = transitions s \<and>
          (tool_calls s0 = tool_calls s \<or>
           (\<exists>p. tool_calls s0 = (tool_calls s)[i := update_args p (tool_calls s ! i)])))"
      by blast
    from find_awaiting_Some [OF fa] have i: "i < length (tool_calls s)"
      "call_id (request (tool_calls s ! i)) = cid" "status (tool_calls s ! i) = AwaitingApproval"
      by auto
    have "exec_ok (tool_calls s1) \<and> valid_trace (transitions s1)"
      using c
    proof
      assume "s1 = s"
      with ok tr show ?thesis by simp
    next
      assume "\<exists>b d s0. (b = Cancelled \<or> b = Scheduled) \<and> s1 = set_status env cid b d s0 \<and>
          transitions s0 = transitions s \<and>
          (tool_calls s0 = tool_calls s \<or>
           (\<exists>p. tool_calls s0 = (tool_calls s)[i := update_args p (tool_calls s ! i)]))"
      then obtain b d s0 where b: "b = Cancelled \<or> b = Scheduled"
        and s1: "s1 = set_status env cid b d s0" and t0: "transitions s0 = transitions s"
        and c0: "tool_calls s0 = tool_calls s \<or>
           (\<exists>p. tool_calls s0 = (tool_calls s)[i := update_args p (tool_calls s ! i)])"
        by blast
      have "exec_ok (tool_calls s0) \<and> i < length (tool_calls s0) \<and>
            call_id (request (tool_calls s0 ! i)) = cid \<and>
            status (tool_calls s0 ! i) = AwaitingApproval"
        using c0
      proof
        assume "tool_calls s0 = tool_calls s"
        with ok i show ?thesis by simp
      next
        assume "\<exists>p. tool_calls s0 = (tool_calls s)[i := update_args p (tool_calls s ! i)]"
        then obtain p where "tool_calls s0 = (tool_calls s)[i := update_args p (tool_calls s ! i)]"
          by blast
        with exec_ok_update_args [OF ok i(1), of p] i show ?thesis by simp
      qed
      then show ?thesis
        using confirm_set_status_inv [of s0 i cid b env d] tr t0 b s1 by simp
    qed
    then show ?thesis using attempt_execution_inv [of s1 env] e by simp
  qed
qed

lemma run_inv:
  "unique_call_ids ops \<Longrightarrow> settled (tool_calls s) \<Longrightarrow> nt_distinct (tool_calls s) \<Longrightarrow>
   valid_trace (transitions s) \<Longrightarrow>
   settled (tool_calls (run ops s)) \<and> nt_distinct (tool_calls (run ops s)) \<and>
   valid_trace (transitions (run ops s))"
proof (induction ops s rule: run.induct)
  case (1 s)
  then show ?case by simp
next
  case (2 env requests ops s)
  from 2(2) have d: "distinct (map call_id requests)" and u: "unique_call_ids ops" by simp_all
  from schedule_inv [OF 2(3) 2(5) 2(4) d, of env]
  show ?case using 2(1) [OF u] by simp
next
  case (3 env cid outcome payload ops s)
  from 3(2) have u: "unique_call_ids ops" by simp
  from confirm_inv [OF 3(3) 3(5) 3(4), of env cid outcome payload]
  show ?case using 3(1) [OF u] by simp
next
  case (4 w ops s)
  from 4(2) have u: "unique_call_ids ops" by simp
  show ?case using 4(1) [OF u] 4(3-5) by simp
qed

lemma loop_terminal_unchanged:
  "length (fst (set_status_loop env cid st d cs w)) = length cs \<and>
   (\<forall>i < length cs. is_terminal (status (cs ! i)) \<longrightarrow>
        fst (set_status_loop env cid st d cs w) ! i = cs ! i)"
proof (cases "st = Validating")
  case True
  then show ?thesis by (simp add: loop_Validating)
next
  case False
  show ?thesis
  proof (cases "find_target cid cs")
    case None
    then show ?thesis by (simp add: loop_miss)
  next
    case (Some k)
    from new_call_Some [OF False, of env d "cs ! k" w] obtain tc' w' where
      n: "new_call env st d (cs ! k) w = Some (tc', w')" by blast
    from find_target_Some [OF Some] have k: "\<not> is_terminal (status (cs ! k))" by simp
    have "\<forall>i < length cs. is_terminal (status (cs ! i)) \<longrightarrow> cs[k := tc'] ! i = cs ! i"
    proof (intro allI impI)
      fix i assume "i < length cs" "is_terminal (status (cs ! i))"
      with k have "i \<noteq> k" by auto
      then show "cs[k := tc'] ! i = cs ! i" by simp
    qed
    then show ?thesis by (simp add: loop_hit [OF Some n])
  qed
qed

text \<open>
  Claim C1, as stated, fails. A batch of two requests that carry the same call id:
  the first call is set to scheduled, and the status change meant for the second call
  lands on the first, which goes from scheduled to awaiting approval. That is not an
  edge of the transition diagram.
\<close>

theorem duplicate_call_id_counterexample:
  "transitions (run [Schedule demo_env [demo_request ''c1'' ''now'', demo_request ''c1'' ''delete_file'']]
                    (init_scheduler True True False)) =
     [(''c1'', Validating, Scheduled), (''c1'', Scheduled, AwaitingApproval)]
   \<and> \<not> scheduler_edge Scheduled AwaitingApproval"
  by (simp add: sched_defs scheduler_edge_def upt_rec)

text \<open>
  Why the callbacks have to return. In the validation loop \<open>_set_status\<close> is called inside
  the \<open>try\<close>. If the listener raised during the call that sets a call to scheduled, the
  replacement would already be made, and the handler would call \<open>_set_status\<close> with
  \<open>error\<close> for the same call: the two calls in a row make the status change from
  scheduled to error, which is not an edge.
\<close>

lemma handler_after_replacement:
  "transitions
     (set_status demo_env ''c1'' Error
        (ResponseD (validation_error_response (demo_request ''c1'' ''now'') (Exception ''listener failed'')))
        (set_status demo_env ''c1'' Scheduled NoDetails
           (demo_scheduler [ValidatingToolCall (demo_request ''c1'' ''now'') (Some now_tool) (Some 100)]))) =
     [(''c1'', Validating, Scheduled), (''c1'', Scheduled, Error)]
   \<and> \<not> scheduler_edge Scheduled Error"
  by (simp add: sched_defs scheduler_edge_def)

text \<open>
  Claim C1, amended. Start from a new scheduler and run any sequence of operations,
  one after the other, in which every batch has pairwise different call ids (the data
  model's rule for call ids), the callbacks return and the tools raise nothing outside
  \<open>Exception\<close>.
  Every status change made on the way starts from a status that is not terminal and
  is one of the edges of \<open>scheduler_edge\<close>. Moreover, in any scheduler state and for
  any arguments, the loop of \<open>_set_status\<close> keeps the length of the list and leaves
  every terminal call exactly as it is, at its place.
\<close>

theorem transitions_follow_edges:
  assumes "unique_call_ids ops"
  shows "(\<forall>t \<in> set (transitions (run ops (init_scheduler complete_cb update_cb w0))).
            \<not> is_terminal (fst (snd t)) \<and> scheduler_edge (fst (snd t)) (snd (snd t)))
       \<and> length (fst (set_status_loop env cid st d (tool_calls s) (world s))) = length (tool_calls s)
       \<and> (\<forall>i < length (tool_calls s). is_terminal (status (tool_calls s ! i)) \<longrightarrow>
             fst (set_status_loop env cid st d (tool_calls s) (world s)) ! i = tool_calls s ! i)"
proof -
  have "valid_trace (transitions (run ops (init_scheduler complete_cb update_cb w0)))"
    using run_inv [OF assms, of "init_scheduler complete_cb update_cb w0"]
    by (simp add: init_scheduler_def)
  then show ?thesis
    using loop_terminal_unchanged [of env cid st d "tool_calls s" "world s"]
    by (simp add: valid_trace_def)
qed

theorem transitions_follow_edges_witness:
  "unique_call_ids [Schedule demo_env [demo_request ''c1'' ''delete_file''],
                    Confirm demo_env ''c1'' ''proceed_once'' None]
   \<and> transitions (run [Schedule demo_env [demo_request ''c1'' ''delete_file''],
                        Confirm demo_env ''c1'' ''proceed_once'' None]
                       (init_scheduler True True False)) =
       [(''c1'', Validating, AwaitingApproval), (''c1'', AwaitingApproval, Scheduled),
        (''c1'', Scheduled, Executing), (''c1'', Executing, Success)]
   \<and> fst (set_status_loop demo_env ''c1'' Scheduled NoDetails
             [ErroredToolCall (demo_request ''c1'' ''nope'') NoDetails (Some 0)] False) =
       [ErroredToolCall (demo_request ''c1'' ''nope'') NoDetails (Some 0)]"
proof -
  have u: "unique_call_ids [Schedule demo_env [demo_request ''c1'' ''delete_file''],
                    Confirm demo_env ''c1'' ''proceed_once'' None]"
    by (simp add: demo_request_def)
  have t: "transitions (run [Schedule demo_env [demo_request ''c1'' ''delete_file''],
                        Confirm demo_env ''c1'' ''proceed_once'' None]
                       (init_scheduler True True False)) =
       [(''c1'', Validating, AwaitingApproval), (''c1'', AwaitingApproval, Scheduled),
        (''c1'', Scheduled, Executing), (''c1'', Executing, Success)]"
    by (simp add: sched_defs)
  have l: "fst (set_status_loop demo_env ''c1'' Scheduled NoDetails
             [ErroredToolCall (demo_request ''c1'' ''nope'') NoDetails (Some 0)] False) =
       [ErroredToolCall (demo_request ''c1'' ''nope'') NoDetails (Some 0)]"
    by (simp add: demo_request_def)
  from transitions_follow_edges [OF u, of True True False demo_env "''c1''" Scheduled NoDetails
         "demo_scheduler [ErroredToolCall (demo_request ''c1'' ''nope'') NoDetails (Some 0)]"]
    u t l show ?thesis by simp
qed

section \<open>The trace of the execution loop\<close>































section \<open>The abort signal on the execution path\<close>



section \<open>The parameter sanitizer and shared sub-schemas\<close>

lemma remove_unsupported_filter:
  "remove_unsupported d = filter (\<lambda>e. fst e \<notin> set unsupported_fields) d"
proof -
  have "fold del_key ks d = filter (\<lambda>e. fst e \<notin> set ks) d" for ks
  proof (induction ks arbitrary: d)
    case Nil
    then show ?case by simp
  next
    case (Cons k ks)
    have "fold del_key (k # ks) d = fold del_key ks (del_key k d)" by simp
    also have "\<dots> = filter (\<lambda>e. fst e \<notin> set ks) (filter (\<lambda>e. fst e \<noteq> k) d)"
      by (simp add: Cons.IH del_key_def)
    also have "\<dots> = filter (\<lambda>e. fst e \<notin> set (k # ks)) d"
      by (auto intro: filter_cong)
    finally show ?case .
  qed
  then show ?thesis by (simp add: remove_unsupported_def)
qed

lemma clean_dict_filter: "clean_dict d = filter (\<lambda>e. kept d (fst e)) d"
proof (cases "clean_format (remove_unsupported d) = remove_unsupported d")
  case True
  then show ?thesis
    by (simp add: clean_dict_def kept_def remove_unsupported_filter)
next
  case False
  then have "clean_format (remove_unsupported d) = del_key ''format'' (remove_unsupported d)"
    by (auto simp: clean_format_def split: if_splits)
  with False show ?thesis
    by (auto simp: clean_dict_def kept_def remove_unsupported_filter del_key_def intro: filter_cong)
qed

lemma map_of_filter_key:
  "map_of (filter (\<lambda>e. P (fst e)) d) k = (if P k then map_of d k else None)"
  by (induction d) auto



lemma shrinks_refl [simp]: "shrinks ob ob"
proof (cases ob)
  case (DictObj d)
  have "DictObj d = DictObj (filter (\<lambda>e. (\<lambda>k. True) (fst e)) d)" by simp
  then have "\<exists>P. DictObj d = DictObj (filter (\<lambda>e. P (fst e)) d)"
    by (rule exI [of _ "\<lambda>k. True"])
  with DictObj show ?thesis by (simp add: shrinks_def)
next
  case (ListObj l)
  then show ?thesis by (simp add: shrinks_def)
qed

lemma shrinks_clean [simp]: "shrinks ob (clean_obj ob)"
proof (cases ob)
  case (DictObj d)
  have "\<exists>P. DictObj (clean_dict d) = DictObj (filter (\<lambda>e. P (fst e)) d)"
    by (subst clean_dict_filter) (rule exI [of _ "kept d"], rule refl)
  with DictObj show ?thesis by (simp add: shrinks_def clean_obj_def)
next
  case (ListObj l)
  then show ?thesis by (simp add: shrinks_def clean_obj_def)
qed



lemma heap_shrinks_is_dict:
  assumes "heap_shrinks h h'"
  shows "is_dict h' v = is_dict h v"
proof (cases v)
  case (JRef a)
  show ?thesis
  proof (cases "a < length h")
    case True
    with assms have "shrinks (h ! a) (h' ! a)" by (simp add: heap_shrinks_def)
    then show ?thesis using JRef True assms
      by (cases "h ! a") (auto simp: shrinks_def heap_shrinks_def)
  next
    case False
    with JRef assms show ?thesis by (simp add: heap_shrinks_def)
  qed
qed simp_all

lemma heap_shrinks_is_list:
  assumes "heap_shrinks h h'"
  shows "is_list h' v = is_list h v"
proof (cases v)
  case (JRef a)
  show ?thesis
  proof (cases "a < length h")
    case True
    with assms have "shrinks (h ! a) (h' ! a)" by (simp add: heap_shrinks_def)
    then show ?thesis using JRef True assms
      by (cases "h ! a") (auto simp: shrinks_def heap_shrinks_def)
  next
    case False
    with JRef assms show ?thesis by (simp add: heap_shrinks_def)
  qed
qed simp_all

lemma heap_shrinks_dict_at:
  assumes "heap_shrinks h h'" "a < length h"
  shows "set (dict_at h' a) \<subseteq> set (dict_at h a)"
proof -
  from assms have "shrinks (h ! a) (h' ! a)" by (simp add: heap_shrinks_def)
  then show ?thesis
    by (cases "h ! a") (auto simp: shrinks_def dict_at_def)
qed

lemma heap_shrinks_list_at:
  assumes "heap_shrinks h h'" "a < length h"
  shows "list_at h' a = list_at h a"
proof -
  from assms have "shrinks (h ! a) (h' ! a)" by (simp add: heap_shrinks_def)
  then show ?thesis
    by (cases "h ! a") (auto simp: shrinks_def list_at_def)
qed

lemma visit_concat_map:
  "Visit y \<in> set (concat (map (\<lambda>e. if P e then f e else []) xs)) \<longleftrightarrow>
     (\<exists>e \<in> set xs. P e \<and> Visit y \<in> set (f e))"
  by (induction xs) auto

lemma visit_properties_work_of:
  "Visit y \<in> set (properties_work_of h m) \<longleftrightarrow>
     (\<exists>p e. m = Some p \<and> is_dict h p \<and>
            e \<in> set (dict_at h (ref_addr p)) \<and> is_dict h (snd e) \<and> y = ref_addr (snd e))"
proof (cases m)
  case None
  then show ?thesis by (simp add: properties_work_of_def)
next
  case (Some p)
  show ?thesis
  proof (cases "is_dict h p")
    case False
    with Some show ?thesis by (simp add: properties_work_of_def)
  next
    case True
    let ?f = "\<lambda>e. [Visit (ref_addr (snd e)), Check (ref_addr p) (length (dict_at h (ref_addr p)))]"
    have "properties_work_of h m =
            concat (map (\<lambda>e. if is_dict h (snd e) then ?f e else []) (dict_at h (ref_addr p)))"
      using Some True by (simp add: properties_work_of_def)
    then have "Visit y \<in> set (properties_work_of h m) \<longleftrightarrow>
            (\<exists>e \<in> set (dict_at h (ref_addr p)). is_dict h (snd e) \<and> Visit y \<in> set (?f e))"
      by (simp only: visit_concat_map)
    also have "\<dots> \<longleftrightarrow> (\<exists>e \<in> set (dict_at h (ref_addr p)). is_dict h (snd e) \<and> y = ref_addr (snd e))"
      by simp
    also have "\<dots> \<longleftrightarrow> (\<exists>p e. m = Some p \<and> is_dict h p \<and>
            e \<in> set (dict_at h (ref_addr p)) \<and> is_dict h (snd e) \<and> y = ref_addr (snd e))"
      using Some True by blast
    finally show ?thesis .
  qed
qed

lemma visit_items_work_of:
  "Visit y \<in> set (items_work_of h m) \<longleftrightarrow> (\<exists>i. m = Some i \<and> is_dict h i \<and> y = ref_addr i)"
  by (cases m) (auto simp: items_work_of_def)

lemma visit_of_work_of:
  "Visit y \<in> set (of_work_of h m) \<longleftrightarrow>
     (\<exists>l item. m = Some l \<and> is_list h l \<and>
            item \<in> set (list_at h (ref_addr l)) \<and> is_dict h item \<and> y = ref_addr item)"
proof (cases m)
  case None
  then show ?thesis by (simp add: of_work_of_def)
next
  case (Some l)
  show ?thesis
  proof (cases "is_list h l")
    case False
    with Some show ?thesis by (simp add: of_work_of_def)
  next
    case True
    let ?f = "\<lambda>item. [Visit (ref_addr item)]"
    have "of_work_of h m =
            concat (map (\<lambda>item. if is_dict h item then ?f item else []) (list_at h (ref_addr l)))"
      using Some True by (simp add: of_work_of_def)
    then have "Visit y \<in> set (of_work_of h m) \<longleftrightarrow>
            (\<exists>item \<in> set (list_at h (ref_addr l)). is_dict h item \<and> Visit y \<in> set (?f item))"
      by (simp only: visit_concat_map)
    also have "\<dots> \<longleftrightarrow> (\<exists>item \<in> set (list_at h (ref_addr l)). is_dict h item \<and> y = ref_addr item)"
      by simp
    also have "\<dots> \<longleftrightarrow> (\<exists>l item. m = Some l \<and> is_list h l \<and>
            item \<in> set (list_at h (ref_addr l)) \<and> is_dict h item \<and> y = ref_addr item)"
      using Some True by blast
    finally show ?thesis .
  qed
qed

lemma visit_properties_work:
  "Visit y \<in> set (properties_work h d) \<longleftrightarrow>
     (\<exists>p e. map_of d ''properties'' = Some p \<and> is_dict h p \<and>
            e \<in> set (dict_at h (ref_addr p)) \<and> is_dict h (snd e) \<and> y = ref_addr (snd e))"
proof -
  have "properties_work h d = properties_work_of h (map_of d ''properties'')"
    by (simp only: properties_work_def properties_work_of_def)
  then show ?thesis by (simp only: visit_properties_work_of)
qed

lemma visit_items_work:
  "Visit y \<in> set (items_work h d) \<longleftrightarrow>
     (\<exists>i. map_of d ''items'' = Some i \<and> is_dict h i \<and> y = ref_addr i)"
proof -
  have "items_work h d = items_work_of h (map_of d ''items'')"
    by (simp only: items_work_def items_work_of_def)
  then show ?thesis by (simp only: visit_items_work_of)
qed

lemma visit_of_work:
  "Visit y \<in> set (of_work key h d) \<longleftrightarrow>
     (\<exists>l item. map_of d key = Some l \<and> is_list h l \<and>
            item \<in> set (list_at h (ref_addr l)) \<and> is_dict h item \<and> y = ref_addr item)"
proof -
  have "of_work key h d = of_work_of h (map_of d key)"
    by (simp only: of_work_def of_work_of_def)
  then show ?thesis by (simp only: visit_of_work_of)
qed

lemma visit_children_work:
  "Visit y \<in> set (children_work h d) \<longleftrightarrow>
     Visit y \<in> set (properties_work h d) \<or> Visit y \<in> set (items_work h d) \<or>
     Visit y \<in> set (of_work ''anyOf'' h d) \<or> Visit y \<in> set (of_work ''oneOf'' h d) \<or>
     Visit y \<in> set (of_work ''allOf'' h d)"
  by (auto simp: children_work_def)


lemma is_dict_length: "is_dict h v \<Longrightarrow> ref_addr v < length h"
  by (cases v) simp_all

lemma is_list_length: "is_list h v \<Longrightarrow> ref_addr v < length h"
  by (cases v) simp_all

lemma visits_mono:
  assumes hs: "heap_shrinks h h'" and v: "Visit y \<in> set (children_work h' d)"
  shows "Visit y \<in> set (children_work h d)"
proof -
  note d = heap_shrinks_is_dict [OF hs] and l = heap_shrinks_is_list [OF hs]
  from v consider
    (p) "Visit y \<in> set (properties_work h' d)" | (i) "Visit y \<in> set (items_work h' d)" |
    (a) key where "key \<in> {''anyOf'', ''oneOf'', ''allOf''}" "Visit y \<in> set (of_work key h' d)"
    unfolding visit_children_work by blast
  then show ?thesis
  proof cases
    case p
    then obtain q e where q: "map_of d ''properties'' = Some q" "is_dict h' q"
      "e \<in> set (dict_at h' (ref_addr q))" "is_dict h' (snd e)" "y = ref_addr (snd e)"
      unfolding visit_properties_work by blast
    from q(2) have "is_dict h q" by (simp add: d)
    then have "ref_addr q < length h" by (rule is_dict_length)
    from heap_shrinks_dict_at [OF hs this] q(3) have "e \<in> set (dict_at h (ref_addr q))" by blast
    with q \<open>is_dict h q\<close> have "Visit y \<in> set (properties_work h d)"
      unfolding visit_properties_work d by blast
    then show ?thesis unfolding visit_children_work by blast
  next
    case i
    then have "Visit y \<in> set (items_work h d)"
      unfolding visit_items_work d .
    then show ?thesis unfolding visit_children_work by blast
  next
    case a
    from a(2) obtain q item where q: "map_of d key = Some q" "is_list h' q"
      "item \<in> set (list_at h' (ref_addr q))" "is_dict h' item" "y = ref_addr item"
      unfolding visit_of_work by blast
    from q(2) have lq: "is_list h q" by (simp add: l)
    then have "ref_addr q < length h" by (rule is_list_length)
    from heap_shrinks_list_at [OF hs this] q(3) have "item \<in> set (list_at h (ref_addr q))" by simp
    with q lq have "Visit y \<in> set (of_work key h d)"
      unfolding visit_of_work d by blast
    with a(1) show ?thesis unfolding visit_children_work by blast
  qed
qed

lemma map_of_filter_Some:
  "map_of (filter (\<lambda>e. P (fst e)) d) k = Some q \<Longrightarrow> map_of d k = Some q"
  by (simp add: map_of_filter_key split: if_splits)

lemma visits_filter:
  assumes "Visit y \<in> set (children_work h (filter (\<lambda>e. P (fst e)) d))"
  shows "Visit y \<in> set (children_work h d)"
proof -
  note m = map_of_filter_Some [of P d]
  from assms consider
    (p) "Visit y \<in> set (properties_work h (filter (\<lambda>e. P (fst e)) d))" |
    (i) "Visit y \<in> set (items_work h (filter (\<lambda>e. P (fst e)) d))" |
    (a) key where "key \<in> {''anyOf'', ''oneOf'', ''allOf''}"
      "Visit y \<in> set (of_work key h (filter (\<lambda>e. P (fst e)) d))"
    unfolding visit_children_work by blast
  then show ?thesis
  proof cases
    case p
    then obtain q e where q: "map_of (filter (\<lambda>e. P (fst e)) d) ''properties'' = Some q"
      "is_dict h q" "e \<in> set (dict_at h (ref_addr q))" "is_dict h (snd e)" "y = ref_addr (snd e)"
      unfolding visit_properties_work by blast
    from m [OF q(1)] q have "Visit y \<in> set (properties_work h d)"
      unfolding visit_properties_work by blast
    then show ?thesis unfolding visit_children_work by blast
  next
    case i
    then obtain q where q: "map_of (filter (\<lambda>e. P (fst e)) d) ''items'' = Some q"
      "is_dict h q" "y = ref_addr q"
      unfolding visit_items_work by blast
    from m [OF q(1)] q have "Visit y \<in> set (items_work h d)"
      unfolding visit_items_work by blast
    then show ?thesis unfolding visit_children_work by blast
  next
    case a
    from a(2) obtain q item where q: "map_of (filter (\<lambda>e. P (fst e)) d) key = Some q"
      "is_list h q" "item \<in> set (list_at h (ref_addr q))" "is_dict h item" "y = ref_addr item"
      unfolding visit_of_work by blast
    from m [OF q(1)] q have "Visit y \<in> set (of_work key h d)"
      unfolding visit_of_work by blast
    with a(1) show ?thesis unfolding visit_children_work by blast
  qed
qed

lemma child_mono:
  assumes hs: "heap_shrinks h h'" and c: "child h' a y"
  shows "child h a y"
proof -
  from c have d': "is_dict h' (JRef a)" and v: "Visit y \<in> set (children_work h' (dict_at h' a))"
    by (simp_all add: child_def)
  from d' have d: "is_dict h (JRef a)" by (simp only: heap_shrinks_is_dict [OF hs])
  then have a: "a < length h" by simp
  with hs have "shrinks (h ! a) (h' ! a)" by (simp add: heap_shrinks_def)
  with d a obtain P where "dict_at h' a = filter (\<lambda>e. P (fst e)) (dict_at h a)"
    by (cases "h ! a") (auto simp: shrinks_def dict_at_def)
  with v have "Visit y \<in> set (children_work h' (filter (\<lambda>e. P (fst e)) (dict_at h a)))" by simp
  then have "Visit y \<in> set (children_work h (filter (\<lambda>e. P (fst e)) (dict_at h a)))"
    by (rule visits_mono [OF hs])
  then have "Visit y \<in> set (children_work h (dict_at h a))" by (rule visits_filter)
  with d show ?thesis by (simp add: child_def)
qed


lemma child_trancl_mono:
  assumes hs: "heap_shrinks h h'" and c: "(child h')\<^sup>+\<^sup>+ a y"
  shows "(child h)\<^sup>+\<^sup>+ a y"
  using c
proof (induction rule: tranclp_induct)
  case (base y)
  from child_mono [OF hs base] show ?case by (rule tranclp.r_into_trancl)
next
  case (step y z)
  from step.IH child_mono [OF hs step.hyps(2)] show ?case by (rule tranclp.trancl_into_trancl)
qed













































end
